theory Spec2Isabelle
  imports Main "HOL-Library.Multiset"
begin

section \<open>JavaScript strings and the regular expressions of the storage service\<close>

text \<open>
  A JavaScript string is a sequence of UTF-16 code units. The regular expressions of
  \<^verbatim>\<open>services/storage.ts\<close> carry neither the \<^verbatim>\<open>u\<close> nor the \<^verbatim>\<open>i\<close> flag, so they match code
  unit by code unit and case-sensitively. A code unit is modelled by its number.
\<close>

type_synonym jsstring = "nat list"

definition ascii :: "string \<Rightarrow> jsstring" where
  "ascii s = map of_char s"

definition hash :: nat where
  "hash = 35"

definition dollar :: nat where
  "dollar = 36"

definition space :: nat where
  "space = 32"

text \<open>The class \<^verbatim>\<open>\w\<close>: \<^verbatim>\<open>[A-Za-z0-9_]\<close>.\<close>

definition word_char :: "nat \<Rightarrow> bool" where
  "word_char c \<longleftrightarrow>
     (65 \<le> c \<and> c \<le> 90) \<or> (97 \<le> c \<and> c \<le> 122) \<or> (48 \<le> c \<and> c \<le> 57) \<or> c = 95"

text \<open>The class \<^verbatim>\<open>[\w\u4e00-\u9fa5]\<close> of the three tag expressions.\<close>

definition tag_char :: "nat \<Rightarrow> bool" where
  "tag_char c \<longleftrightarrow> word_char c \<or> (19968 \<le> c \<and> c \<le> 40869)"

text \<open>
  The class \<^verbatim>\<open>\s\<close>: tab, line feed, vertical tab, form feed, carriage return, space,
  no-break space, U+1680, U+2000 to U+200A, the line and paragraph separators, U+202F,
  U+205F, U+3000 and the byte order mark.
\<close>

definition white_space :: "nat \<Rightarrow> bool" where
  "white_space c \<longleftrightarrow>
     (9 \<le> c \<and> c \<le> 13) \<or> c = 32 \<or> c = 160 \<or> c = 5760 \<or> (8192 \<le> c \<and> c \<le> 8202) \<or>
     c = 8232 \<or> c = 8233 \<or> c = 8239 \<or> c = 8287 \<or> c = 12288 \<or> c = 65279"

text \<open>
  \<^verbatim>\<open>content.match(/#([\w\u4e00-\u9fa5]+)/g)\<close>: the matches from left to right. A match
  starts at a \<^verbatim>\<open>#\<close> that a tag character follows and takes the longest run of tag
  characters (the quantifier is greedy and nothing follows it); the search goes on
  behind the match.
\<close>

function match_hashTag :: "jsstring \<Rightarrow> jsstring list" where
  "match_hashTag [] = []"
| "match_hashTag (c # cs) =
     (if c = hash \<and> takeWhile tag_char cs \<noteq> []
      then (c # takeWhile tag_char cs) # match_hashTag (dropWhile tag_char cs)
      else match_hashTag cs)"
  by pat_completeness auto
termination
  by (relation "measure length") (auto simp: less_Suc_eq_le length_dropWhile_le)

text \<open>
  \<^verbatim>\<open>new Set(xs)\<close> keeps the first occurrence of every element, in insertion order, and
  \<^verbatim>\<open>Array.from\<close> lists the set in that order.
\<close>

fun Set_add :: "'a list \<Rightarrow> 'a list \<Rightarrow> 'a list" where
  "Set_add acc [] = acc"
| "Set_add acc (x # xs) = Set_add (if x \<in> set acc then acc else acc @ [x]) xs"

definition Array_from_Set :: "'a list \<Rightarrow> 'a list" where
  "Array_from_Set xs = Set_add [] xs"

text \<open>\<^verbatim>\<open>extractTags\<close>; \<^verbatim>\<open>match\<close> returns \<^verbatim>\<open>null\<close> when nothing matches.\<close>

definition extractTags :: "jsstring \<Rightarrow> jsstring list" where
  "extractTags content =
     (case match_hashTag content of
        [] \<Rightarrow> []
      | m # ms \<Rightarrow> Array_from_Set (map (drop 1) (m # ms)))"

text \<open>
  The replacement text of \<^verbatim>\<open>String.prototype.replace\<close> is a template: for a pattern
  without capture groups, \<^verbatim>\<open>$$\<close> stands for a dollar sign, \<^verbatim>\<open>$&\<close> for the matched text,
  \<^verbatim>\<open>$`\<close> for the text before the match and \<^verbatim>\<open>$'\<close> for the text behind it; any other
  dollar sign stands for itself.
\<close>

fun GetSubstitution :: "jsstring \<Rightarrow> jsstring \<Rightarrow> jsstring \<Rightarrow> jsstring \<Rightarrow> jsstring" where
  "GetSubstitution matched pre post [] = []"
| "GetSubstitution matched pre post [c] = [c]"
| "GetSubstitution matched pre post (c # d # template) =
     (if c = dollar \<and> d = dollar then dollar # GetSubstitution matched pre post template
      else if c = dollar \<and> d = 38 then matched @ GetSubstitution matched pre post template
      else if c = dollar \<and> d = 96 then pre @ GetSubstitution matched pre post template
      else if c = dollar \<and> d = 39 then post @ GetSubstitution matched pre post template
      else c # GetSubstitution matched pre post (d # template))"

text \<open>
  \<^verbatim>\<open>str.replace(new RegExp(`#${tag}(?![\\w\\u4e00-\\u9fa5])`, 'g'), template)\<close> for a tag
  made of tag characters, where the pattern has no metacharacter: a match is the text
  \<^verbatim>\<open>#tag\<close> with no tag character behind it. \<open>passed\<close> is the part of the string the search
  has gone through.
\<close>

definition lookahead_ok :: "jsstring \<Rightarrow> bool" where
  "lookahead_ok post = (case post of [] \<Rightarrow> True | d # _ \<Rightarrow> \<not> tag_char d)"

fun replace_from :: "jsstring \<Rightarrow> jsstring \<Rightarrow> jsstring \<Rightarrow> jsstring \<Rightarrow> jsstring" where
  "replace_from tag template passed [] = []"
| "replace_from tag template passed (c # cs) =
     (if c = hash \<and> take (length tag) cs = tag \<and> lookahead_ok (drop (length tag) cs)
      then GetSubstitution (hash # tag) passed (drop (length tag) cs) template @
           replace_from tag template (passed @ hash # tag) (drop (length tag) cs)
      else c # replace_from tag template (passed @ [c]) cs)"

definition replace_tag :: "jsstring \<Rightarrow> jsstring \<Rightarrow> jsstring \<Rightarrow> jsstring" where
  "replace_tag tag str template = replace_from tag template [] str"

text \<open>
  \<^verbatim>\<open>str.replace(/\s{2,}/g, ' ')\<close>: a match starts at a white space character that another
  one follows and takes the whole run.
\<close>

function replace_spaces :: "jsstring \<Rightarrow> jsstring" where
  "replace_spaces [] = []"
| "replace_spaces (c # cs) =
     (if white_space c \<and> takeWhile white_space cs \<noteq> []
      then space # replace_spaces (dropWhile white_space cs)
      else c # replace_spaces cs)"
  by pat_completeness auto
termination
  by (relation "measure length") (auto simp: less_Suc_eq_le length_dropWhile_le)

section \<open>Records, the two stored items and the runtime\<close>

text \<open>
  The interfaces \<^verbatim>\<open>Note\<close> and \<^verbatim>\<open>Folder\<close> of \<^verbatim>\<open>types.ts\<close>; \<^verbatim>\<open>null\<close> is \<open>None\<close>. Every note the
  service writes has a \<^verbatim>\<open>folderId\<close>, \<^verbatim>\<open>null\<close> or a string; a note without the field is not
  modelled. Timestamps are the integers \<^verbatim>\<open>Date.now()\<close> returns.
\<close>

record Note =
  id_note :: jsstring
  content :: jsstring
  createdAt :: int
  updatedAt :: int
  isPinned :: bool
  isTrashed :: bool
  tags :: "jsstring list"
  folderId :: "jsstring option"

record Folder =
  id_folder :: jsstring
  name :: jsstring
  parentId :: "jsstring option"
  createdAt_folder :: int

text \<open>
  What \<^verbatim>\<open>localStorage\<close> holds under a key, by what \<^verbatim>\<open>getItem\<close> and \<^verbatim>\<open>JSON.parse\<close> make of
  it: nothing (\<^verbatim>\<open>getItem\<close> returns \<^verbatim>\<open>null\<close>, or the empty string, which is falsy as well),
  a text that \<^verbatim>\<open>JSON.parse\<close> rejects, a JSON text of a value that is no array (an object,
  a number, a string, a boolean, \<^verbatim>\<open>null\<close>), or a JSON array. The elements of a stored
  array are taken to be records of the declared type; \<^verbatim>\<open>JSON.parse\<close> gives back the
  records \<^verbatim>\<open>JSON.stringify\<close> wrote.
\<close>

datatype 'a item = No_item | Not_JSON | JSON_non_array | JSON_array "'a list"

datatype storage_key = STORAGE_KEY_NOTES | STORAGE_KEY_FOLDERS

text \<open>
  The store: the two items, and the keys of the \<^verbatim>\<open>setItem\<close> calls made so far (the
  latest last), which records whether an operation wrote at all.
\<close>

record world =
  bearclone_notes_v2 :: "Note item"
  bearclone_folders_v1 :: "Folder item"
  setItem_calls :: "storage_key list"

datatype js_error = TypeError | SyntaxError

datatype 'a collection = Array "'a list" | Not_array

text \<open>
  What one call of an operation obtains from the JavaScript runtime: the identifier
  \<^verbatim>\<open>generateId()\<close> returns, the value of the \<open>k\<close>-th call of \<^verbatim>\<open>Date.now()\<close>, whether
  \<^verbatim>\<open>setItem\<close> accepts the write under a key (each operation writes a key at most once),
  and what \<^verbatim>\<open>new RegExp\<close> makes of a pattern built from a tag that is not made of tag
  characters only: a \<^verbatim>\<open>SyntaxError\<close>, or an expression with its \<^verbatim>\<open>replace\<close> function
  (from the string and the template to the result).
\<close>

record runtime =
  generateId :: jsstring
  Date_now :: "nat \<Rightarrow> int"
  setItem_ok :: "storage_key \<Rightarrow> bool"
  RegExp_other :: "jsstring \<Rightarrow> js_error + (jsstring \<Rightarrow> jsstring \<Rightarrow> jsstring)"

text \<open>An optional argument: left out (\<^verbatim>\<open>undefined\<close>), or given, \<^verbatim>\<open>null\<close> included.\<close>

datatype 'a arg = Omitted | Given 'a

section \<open>The storage service\<close>

text \<open>
  \<^verbatim>\<open>getNotesFromStorage\<close> and \<^verbatim>\<open>getFoldersFromStorage\<close>: the empty array for a missing item
  and for a text \<^verbatim>\<open>JSON.parse\<close> rejects (the \<^verbatim>\<open>catch\<close> branch); otherwise whatever
  \<^verbatim>\<open>JSON.parse\<close> returns.
\<close>

definition getNotesFromStorage :: "world \<Rightarrow> Note collection" where
  "getNotesFromStorage w =
     (case bearclone_notes_v2 w of
        No_item \<Rightarrow> Array []
      | Not_JSON \<Rightarrow> Array []
      | JSON_non_array \<Rightarrow> Not_array
      | JSON_array notes \<Rightarrow> Array notes)"

definition getFoldersFromStorage :: "world \<Rightarrow> Folder collection" where
  "getFoldersFromStorage w =
     (case bearclone_folders_v1 w of
        No_item \<Rightarrow> Array []
      | Not_JSON \<Rightarrow> Array []
      | JSON_non_array \<Rightarrow> Not_array
      | JSON_array folders \<Rightarrow> Array folders)"

text \<open>
  \<^verbatim>\<open>saveNotesToStorage\<close> and \<^verbatim>\<open>saveFoldersToStorage\<close>: a \<^verbatim>\<open>setItem\<close> that throws is caught
  and leaves the item as it was.
\<close>

definition saveNotesToStorage :: "runtime \<Rightarrow> Note list \<Rightarrow> world \<Rightarrow> world" where
  "saveNotesToStorage rt notes w =
     (if setItem_ok rt STORAGE_KEY_NOTES
      then w\<lparr>bearclone_notes_v2 := JSON_array notes,
             setItem_calls := setItem_calls w @ [STORAGE_KEY_NOTES]\<rparr>
      else w\<lparr>setItem_calls := setItem_calls w @ [STORAGE_KEY_NOTES]\<rparr>)"

definition saveFoldersToStorage :: "runtime \<Rightarrow> Folder list \<Rightarrow> world \<Rightarrow> world" where
  "saveFoldersToStorage rt folders w =
     (if setItem_ok rt STORAGE_KEY_FOLDERS
      then w\<lparr>bearclone_folders_v1 := JSON_array folders,
             setItem_calls := setItem_calls w @ [STORAGE_KEY_FOLDERS]\<rparr>
      else w\<lparr>setItem_calls := setItem_calls w @ [STORAGE_KEY_FOLDERS]\<rparr>)"

text \<open>\<^verbatim>\<open>Array.prototype.findIndex\<close>; \<open>None\<close> stands for \<^verbatim>\<open>-1\<close>.\<close>

fun findIndex :: "('a \<Rightarrow> bool) \<Rightarrow> 'a list \<Rightarrow> nat option" where
  "findIndex P [] = None"
| "findIndex P (x # xs) = (if P x then Some 0 else map_option Suc (findIndex P xs))"

text \<open>
  \<^verbatim>\<open>Array.prototype.sort\<close> with a comparison function is stable: an element goes before
  the elements behind it that it does not compare greater than.
\<close>

fun sort_insert :: "('a \<Rightarrow> 'a \<Rightarrow> int) \<Rightarrow> 'a \<Rightarrow> 'a list \<Rightarrow> 'a list" where
  "sort_insert cmp x [] = [x]"
| "sort_insert cmp x (y # ys) =
     (if cmp x y \<le> 0 then x # y # ys else y # sort_insert cmp x ys)"

definition sort_by :: "('a \<Rightarrow> 'a \<Rightarrow> int) \<Rightarrow> 'a list \<Rightarrow> 'a list" where
  "sort_by cmp xs = foldr (sort_insert cmp) xs []"

text \<open>
  An operation returns its result, or the error it throws, and the store it leaves. A
  method called on a value that is no array (\<^verbatim>\<open>sort\<close>, \<^verbatim>\<open>unshift\<close>, \<^verbatim>\<open>findIndex\<close>, \<^verbatim>\<open>filter\<close>,
  \<^verbatim>\<open>map\<close>) throws a \<^verbatim>\<open>TypeError\<close>: no JSON value but an array has it. The operations are
  taken one at a time, each from its first statement to its last; the \<^verbatim>\<open>await delay\<close> of
  the two listings changes no value and is left out.
\<close>

definition getAllNotes :: "world \<Rightarrow> js_error + Note list" where
  "getAllNotes w =
     (case getNotesFromStorage w of
        Not_array \<Rightarrow> Inl TypeError
      | Array notes \<Rightarrow> Inr (sort_by (\<lambda>a b. updatedAt b - updatedAt a) notes))"

definition createNote ::
  "runtime \<Rightarrow> jsstring arg \<Rightarrow> jsstring option arg \<Rightarrow> world \<Rightarrow> (js_error + Note) \<times> world" where
  "createNote rt content_arg folderId_arg w =
     (let content' = (case content_arg of Omitted \<Rightarrow> [] | Given c \<Rightarrow> c);
          folderId' = (case folderId_arg of Omitted \<Rightarrow> None | Given f \<Rightarrow> f)
      in case getNotesFromStorage w of
           Not_array \<Rightarrow> (Inl TypeError, w)
         | Array notes \<Rightarrow>
             (let newNote = \<lparr>id_note = generateId rt, content = content',
                    createdAt = Date_now rt 0, updatedAt = Date_now rt 1,
                    isPinned = False, isTrashed = False,
                    tags = extractTags content', folderId = folderId'\<rparr>
              in (Inr newNote, saveNotesToStorage rt (newNote # notes) w)))"

definition updateNote ::
  "runtime \<Rightarrow> jsstring \<Rightarrow> jsstring \<Rightarrow> jsstring option arg \<Rightarrow> world
     \<Rightarrow> (js_error + Note option) \<times> world" where
  "updateNote rt id' content' folderId_arg w =
     (case getNotesFromStorage w of
        Not_array \<Rightarrow> (Inl TypeError, w)
      | Array notes \<Rightarrow>
          (case findIndex (\<lambda>n. id_note n = id') notes of
             None \<Rightarrow> (Inr None, w)
           | Some index \<Rightarrow>
               (let updatedNote = (notes ! index)\<lparr>content := content',
                      updatedAt := Date_now rt 0, tags := extractTags content'\<rparr>;
                    updatedNote = (case folderId_arg of
                        Omitted \<Rightarrow> updatedNote
                      | Given f \<Rightarrow> updatedNote\<lparr>folderId := f\<rparr>)
                in (Inr (Some updatedNote),
                    saveNotesToStorage rt (notes[index := updatedNote]) w))))"

definition togglePin :: "runtime \<Rightarrow> jsstring \<Rightarrow> world \<Rightarrow> (js_error + Note option) \<times> world" where
  "togglePin rt id' w =
     (case getNotesFromStorage w of
        Not_array \<Rightarrow> (Inl TypeError, w)
      | Array notes \<Rightarrow>
          (case findIndex (\<lambda>n. id_note n = id') notes of
             None \<Rightarrow> (Inr None, w)
           | Some index \<Rightarrow>
               (let notes = notes[index := (notes ! index)\<lparr>isPinned := \<not> isPinned (notes ! index)\<rparr>]
                in (Inr (Some (notes ! index)), saveNotesToStorage rt notes w))))"

definition moveToTrash :: "runtime \<Rightarrow> jsstring \<Rightarrow> world \<Rightarrow> (js_error + unit) \<times> world" where
  "moveToTrash rt id' w =
     (case getNotesFromStorage w of
        Not_array \<Rightarrow> (Inl TypeError, w)
      | Array notes \<Rightarrow>
          (case findIndex (\<lambda>n. id_note n = id') notes of
             None \<Rightarrow> (Inr (), w)
           | Some index \<Rightarrow>
               (let notes = notes[index := (notes ! index)\<lparr>isTrashed := True\<rparr>];
                    notes = notes[index := (notes ! index)\<lparr>isPinned := False\<rparr>]
                in (Inr (), saveNotesToStorage rt notes w))))"

definition restoreFromTrash :: "runtime \<Rightarrow> jsstring \<Rightarrow> world \<Rightarrow> (js_error + unit) \<times> world" where
  "restoreFromTrash rt id' w =
     (case getNotesFromStorage w of
        Not_array \<Rightarrow> (Inl TypeError, w)
      | Array notes \<Rightarrow>
          (case findIndex (\<lambda>n. id_note n = id') notes of
             None \<Rightarrow> (Inr (), w)
           | Some index \<Rightarrow>
               (let notes = notes[index := (notes ! index)\<lparr>isTrashed := False\<rparr>]
                in (Inr (), saveNotesToStorage rt notes w))))"

definition deletePermanently :: "runtime \<Rightarrow> jsstring \<Rightarrow> world \<Rightarrow> (js_error + unit) \<times> world" where
  "deletePermanently rt id' w =
     (case getNotesFromStorage w of
        Not_array \<Rightarrow> (Inl TypeError, w)
      | Array notes \<Rightarrow>
          (let notes = filter (\<lambda>n. id_note n \<noteq> id') notes
           in (Inr (), saveNotesToStorage rt notes w)))"

subsection \<open>Tags\<close>

text \<open>
  \<^verbatim>\<open>new RegExp(`#${tag}(?![\\w\\u4e00-\\u9fa5])`, 'g')\<close> with its \<^verbatim>\<open>replace\<close> function. The
  tag goes into the pattern as it is. A tag made of tag characters has no metacharacter
  and the pattern stands for the text itself; for any other tag the runtime decides.
\<close>

definition RegExp_tag ::
  "runtime \<Rightarrow> jsstring \<Rightarrow> js_error + (jsstring \<Rightarrow> jsstring \<Rightarrow> jsstring)" where
  "RegExp_tag rt tag =
     (if list_all tag_char tag then Inr (replace_tag tag) else RegExp_other rt tag)"

text \<open>
  The \<^verbatim>\<open>notes.map\<close> of \<^verbatim>\<open>renameTag\<close>; \<open>k\<close> counts the calls of \<^verbatim>\<open>Date.now()\<close> made so far,
  one for every note that has the tag.
\<close>

fun renameTag_map ::
  "runtime \<Rightarrow> (jsstring \<Rightarrow> jsstring \<Rightarrow> jsstring) \<Rightarrow> jsstring \<Rightarrow> jsstring \<Rightarrow> nat
     \<Rightarrow> Note list \<Rightarrow> Note list" where
  "renameTag_map rt replace oldTag newTag k [] = []"
| "renameTag_map rt replace oldTag newTag k (note # notes) =
     (if oldTag \<in> set (tags note)
      then (let newContent = replace (content note) (hash # newTag)
            in note\<lparr>content := newContent, tags := extractTags newContent,
                    updatedAt := Date_now rt k\<rparr>)
           # renameTag_map rt replace oldTag newTag (Suc k) notes
      else note # renameTag_map rt replace oldTag newTag k notes)"

definition renameTag ::
  "runtime \<Rightarrow> jsstring \<Rightarrow> jsstring \<Rightarrow> world \<Rightarrow> (js_error + unit) \<times> world" where
  "renameTag rt oldTag newTag w =
     (let notes = getNotesFromStorage w
      in case RegExp_tag rt oldTag of
           Inl e \<Rightarrow> (Inl e, w)
         | Inr replace \<Rightarrow>
             (case notes of
                Not_array \<Rightarrow> (Inl TypeError, w)
              | Array notes \<Rightarrow>
                  (let updated = list_ex (\<lambda>note. oldTag \<in> set (tags note)) notes;
                       newNotes = renameTag_map rt replace oldTag newTag 0 notes
                   in (Inr (), if updated then saveNotesToStorage rt newNotes w else w))))"

fun deleteTag_map ::
  "runtime \<Rightarrow> (jsstring \<Rightarrow> jsstring \<Rightarrow> jsstring) \<Rightarrow> jsstring \<Rightarrow> nat
     \<Rightarrow> Note list \<Rightarrow> Note list" where
  "deleteTag_map rt replace tagToDelete k [] = []"
| "deleteTag_map rt replace tagToDelete k (note # notes) =
     (if tagToDelete \<in> set (tags note)
      then (let newContent = replace_spaces (replace (content note) [])
            in note\<lparr>content := newContent, tags := extractTags newContent,
                    updatedAt := Date_now rt k\<rparr>)
           # deleteTag_map rt replace tagToDelete (Suc k) notes
      else note # deleteTag_map rt replace tagToDelete k notes)"

definition deleteTag :: "runtime \<Rightarrow> jsstring \<Rightarrow> world \<Rightarrow> (js_error + unit) \<times> world" where
  "deleteTag rt tagToDelete w =
     (let notes = getNotesFromStorage w
      in case RegExp_tag rt tagToDelete of
           Inl e \<Rightarrow> (Inl e, w)
         | Inr replace \<Rightarrow>
             (case notes of
                Not_array \<Rightarrow> (Inl TypeError, w)
              | Array notes \<Rightarrow>
                  (let updated = list_ex (\<lambda>note. tagToDelete \<in> set (tags note)) notes;
                       newNotes = deleteTag_map rt replace tagToDelete 0 notes
                   in (Inr (), if updated then saveNotesToStorage rt newNotes w else w))))"

subsection \<open>Folders\<close>

definition createFolder ::
  "runtime \<Rightarrow> jsstring \<Rightarrow> jsstring option arg \<Rightarrow> world \<Rightarrow> (js_error + Folder) \<times> world" where
  "createFolder rt name' parentId_arg w =
     (let parentId' = (case parentId_arg of Omitted \<Rightarrow> None | Given p \<Rightarrow> p)
      in case getFoldersFromStorage w of
           Not_array \<Rightarrow> (Inl TypeError, w)
         | Array folders \<Rightarrow>
             (let newFolder = \<lparr>id_folder = generateId rt, name = name',
                    parentId = parentId', createdAt_folder = Date_now rt 0\<rparr>
              in (Inr newFolder, saveFoldersToStorage rt (folders @ [newFolder]) w)))"

definition updateFolder ::
  "runtime \<Rightarrow> jsstring \<Rightarrow> jsstring \<Rightarrow> world \<Rightarrow> (js_error + unit) \<times> world" where
  "updateFolder rt id' name' w =
     (case getFoldersFromStorage w of
        Not_array \<Rightarrow> (Inl TypeError, w)
      | Array folders \<Rightarrow>
          (case findIndex (\<lambda>f. id_folder f = id') folders of
             None \<Rightarrow> (Inr (), w)
           | Some index \<Rightarrow>
               (let folders = folders[index := (folders ! index)\<lparr>name := name'\<rparr>]
                in (Inr (), saveFoldersToStorage rt folders w))))"

text \<open>
  \<^verbatim>\<open>deleteFolder\<close> reads both items first; the notes are written (when one changed)
  before \<^verbatim>\<open>folders.map\<close> is called.
\<close>

definition deleteFolder :: "runtime \<Rightarrow> jsstring \<Rightarrow> world \<Rightarrow> (js_error + unit) \<times> world" where
  "deleteFolder rt id' w =
     (let folders = getFoldersFromStorage w;
          notes = getNotesFromStorage w
      in case notes of
           Not_array \<Rightarrow> (Inl TypeError, w)
         | Array notes \<Rightarrow>
             (let updatedNotes = list_ex (\<lambda>n. folderId n = Some id') notes;
                  notes = map (\<lambda>n. if folderId n = Some id' then n\<lparr>folderId := None\<rparr> else n) notes;
                  w = (if updatedNotes then saveNotesToStorage rt notes w else w)
              in case folders of
                   Not_array \<Rightarrow> (Inl TypeError, w)
                 | Array folders \<Rightarrow>
                     (let folders = map (\<lambda>f. if parentId f = Some id'
                                              then f\<lparr>parentId := None\<rparr> else f) folders;
                          folders = filter (\<lambda>f. id_folder f \<noteq> id') folders
                      in (Inr (), saveFoldersToStorage rt folders w))))"

section \<open>Sequences of operations\<close>

datatype operation =
    CreateNote "jsstring arg" "jsstring option arg"
  | UpdateNote jsstring jsstring "jsstring option arg"
  | TogglePin jsstring
  | MoveToTrash jsstring
  | RestoreFromTrash jsstring
  | DeletePermanently jsstring
  | RenameTag jsstring jsstring
  | DeleteTag jsstring
  | CreateFolder jsstring "jsstring option arg"
  | UpdateFolder jsstring jsstring
  | DeleteFolder jsstring

text \<open>The store an operation leaves, whether it returned or threw.\<close>

fun step :: "runtime \<Rightarrow> operation \<Rightarrow> world \<Rightarrow> world" where
  "step rt (CreateNote c f) w = snd (createNote rt c f w)"
| "step rt (UpdateNote i c f) w = snd (updateNote rt i c f w)"
| "step rt (TogglePin i) w = snd (togglePin rt i w)"
| "step rt (MoveToTrash i) w = snd (moveToTrash rt i w)"
| "step rt (RestoreFromTrash i) w = snd (restoreFromTrash rt i w)"
| "step rt (DeletePermanently i) w = snd (deletePermanently rt i w)"
| "step rt (RenameTag old new) w = snd (renameTag rt old new w)"
| "step rt (DeleteTag t) w = snd (deleteTag rt t w)"
| "step rt (CreateFolder n p) w = snd (createFolder rt n p w)"
| "step rt (UpdateFolder i n) w = snd (updateFolder rt i n w)"
| "step rt (DeleteFolder i) w = snd (deleteFolder rt i w)"

text \<open>Operations run one after the other, each with what the runtime gives it.\<close>

fun run :: "(runtime \<times> operation) list \<Rightarrow> world \<Rightarrow> world" where
  "run [] w = w"
| "run ((rt, oper) # rest) w = run rest (step rt oper w)"

definition empty_store :: world where
  "empty_store = \<lparr>bearclone_notes_v2 = No_item, bearclone_folders_v1 = No_item,
     setItem_calls = []\<rparr>"

text \<open>The notes and folders an operation reads from a store that holds arrays.\<close>

definition notes_of :: "world \<Rightarrow> Note list" where
  "notes_of w = (case getNotesFromStorage w of Array notes \<Rightarrow> notes | Not_array \<Rightarrow> [])"

definition folders_of :: "world \<Rightarrow> Folder list" where
  "folders_of w = (case getFoldersFromStorage w of Array folders \<Rightarrow> folders | Not_array \<Rightarrow> [])"

section \<open>The tag operations in the words of the specification\<close>

text \<open>
  The specification describes the tag expressions as a tokenizer: a tag token is a \<^verbatim>\<open>#\<close>
  followed by the longest run of word and ideograph characters, and renaming or deleting
  a tag replaces every token whose run is the tag. \<open>spec_replace_tokens tag r s\<close> is \<open>s\<close>
  with every such token replaced by \<open>r\<close>.
\<close>

function spec_replace_tokens :: "jsstring \<Rightarrow> jsstring \<Rightarrow> jsstring \<Rightarrow> jsstring" where
  "spec_replace_tokens tag r [] = []"
| "spec_replace_tokens tag r (c # cs) =
     (if c = hash \<and> takeWhile tag_char cs = tag
      then r @ spec_replace_tokens tag r (dropWhile tag_char cs)
      else c # spec_replace_tokens tag r cs)"
  by pat_completeness auto
termination
  by (relation "measure (\<lambda>(tag, r, s). length s)") (auto simp: less_Suc_eq_le length_dropWhile_le)

text \<open>
  The maximal runs of a text: consecutive characters that are all white space, or all
  not. \<open>spec_collapse_runs\<close> puts a single space for every run of two or more white space
  characters.
\<close>

function spec_white_space_runs :: "jsstring \<Rightarrow> jsstring list" where
  "spec_white_space_runs [] = []"
| "spec_white_space_runs (c # cs) =
     (c # takeWhile (\<lambda>d. white_space d = white_space c) cs)
     # spec_white_space_runs (dropWhile (\<lambda>d. white_space d = white_space c) cs)"
  by pat_completeness auto
termination
  by (relation "measure length") (auto simp: less_Suc_eq_le length_dropWhile_le)

definition spec_collapse_runs :: "jsstring \<Rightarrow> jsstring" where
  "spec_collapse_runs s =
     concat (map (\<lambda>r. if white_space (hd r) \<and> 2 \<le> length r then [space] else r)
       (spec_white_space_runs s))"

section \<open>Properties of stores and example runtimes\<close>

text \<open>No trashed note is pinned.\<close>

definition trash_inv :: "world \<Rightarrow> bool" where
  "trash_inv w = list_all (\<lambda>n. isTrashed n \<longrightarrow> \<not> isPinned n) (notes_of w)"

text \<open>
  The operation is a \<^verbatim>\<open>togglePin\<close> of an identifier that a trashed note of the store has.
  The editor offers the pin button for notes outside the trash only
  (\<^verbatim>\<open>{!note.isTrashed && ...}\<close> in \<^verbatim>\<open>components/Editor.tsx\<close>); the storage service has no such
  test.
\<close>

definition toggles_trashed :: "operation \<Rightarrow> world \<Rightarrow> bool" where
  "toggles_trashed oper w =
     (case oper of
        TogglePin i \<Rightarrow> list_ex (\<lambda>n. id_note n = i \<and> isTrashed n) (notes_of w)
      | _ \<Rightarrow> False)"

text \<open>No operation of the sequence toggles the pin of a trashed note.\<close>

fun pins_outside_trash :: "(runtime \<times> operation) list \<Rightarrow> world \<Rightarrow> bool" where
  "pins_outside_trash [] w = True"
| "pins_outside_trash ((rt, oper) # rest) w =
     (\<not> toggles_trashed oper w \<and> pins_outside_trash rest (step rt oper w))"

text \<open>
  A runtime whose clock stands at \<open>t\<close> during the operation, and one whose clock moves
  on by a millisecond from one reading to the next; both accept every write and reject
  every pattern that is not a plain tag.
\<close>

definition runtime_at :: "jsstring \<Rightarrow> int \<Rightarrow> runtime" where
  "runtime_at i t = \<lparr>generateId = i, Date_now = (\<lambda>k. t), setItem_ok = (\<lambda>key. True),
     RegExp_other = (\<lambda>tag. Inl SyntaxError)\<rparr>"

definition runtime_ticking :: "jsstring \<Rightarrow> int \<Rightarrow> runtime" where
  "runtime_ticking i t = \<lparr>generateId = i, Date_now = (\<lambda>k. t + int k),
     setItem_ok = (\<lambda>key. True), RegExp_other = (\<lambda>tag. Inl SyntaxError)\<rparr>"

text \<open>
  Two sequences of operations: a note is created, pinned and moved to the trash; a note
  is created, moved to the trash and then pinned.
\<close>

definition pin_and_trash :: "(runtime \<times> operation) list" where
  "pin_and_trash =
     [(runtime_at (ascii ''n1'') 1000, CreateNote (Given (ascii ''a #b'')) Omitted),
      (runtime_at [] 2000, TogglePin (ascii ''n1'')),
      (runtime_at [] 3000, MoveToTrash (ascii ''n1''))]"

definition pin_in_trash :: "(runtime \<times> operation) list" where
  "pin_in_trash =
     [(runtime_at (ascii ''n1'') 1000, CreateNote (Given (ascii ''a #b'')) Omitted),
      (runtime_at [] 2000, MoveToTrash (ascii ''n1'')),
      (runtime_at [] 3000, TogglePin (ascii ''n1''))]"

text \<open>The \<^verbatim>\<open>tags\<close> of every note are what \<^verbatim>\<open>extractTags\<close> makes of its \<^verbatim>\<open>content\<close>.\<close>

definition tags_ok :: "world \<Rightarrow> bool" where
  "tags_ok w = list_all (\<lambda>n. tags n = extractTags (content n)) (notes_of w)"

text \<open>A note with a tag is created; the tag is renamed.\<close>

definition review_note :: "(runtime \<times> operation) list" where
  "review_note =
     [(runtime_at (ascii ''n1'') 1000, CreateNote (Given (ascii ''Review #idea please'')) Omitted)]"

definition rename_idea :: "runtime \<times> operation" where
  "rename_idea = (runtime_at [] 2000, RenameTag (ascii ''idea'') (ascii ''notion''))"

text \<open>
  A folder \<^verbatim>\<open>F\<close> with a child folder \<^verbatim>\<open>C\<close>, a note in \<^verbatim>\<open>F\<close> and a newer note in \<^verbatim>\<open>C\<close>.
\<close>

definition folder_with_child :: "(runtime \<times> operation) list" where
  "folder_with_child =
     [(runtime_at (ascii ''F'') 1000, CreateFolder (ascii ''Work'') Omitted),
      (runtime_at (ascii ''C'') 2000, CreateFolder (ascii ''Plans'') (Given (Some (ascii ''F'')))),
      (runtime_at (ascii ''n1'') 3000,
         CreateNote (Given (ascii ''in F'')) (Given (Some (ascii ''F'')))),
      (runtime_at (ascii ''n2'') 4000,
         CreateNote (Given (ascii ''in C'')) (Given (Some (ascii ''C''))))]"

text \<open>A note in the folder \<^verbatim>\<open>F0\<close>.\<close>

definition note_in_folder :: "(runtime \<times> operation) list" where
  "note_in_folder =
     [(runtime_at (ascii ''n1'') 1000,
         CreateNote (Given (ascii ''old #a'')) (Given (Some (ascii ''F0''))))]"

text \<open>A note that names a folder \<^verbatim>\<open>X\<close>, in a store without folders.\<close>

definition note_in_missing_folder :: "(runtime \<times> operation) list" where
  "note_in_missing_folder =
     [(runtime_at (ascii ''n1'') 1000,
         CreateNote (Given (ascii ''lost'')) (Given (Some (ascii ''X''))))]"





text \<open>Both items are read as arrays.\<close>

definition holds_arrays :: "world \<Rightarrow> bool" where
  "holds_arrays w \<longleftrightarrow>
     getNotesFromStorage w \<noteq> Not_array \<and> getFoldersFromStorage w \<noteq> Not_array"

text \<open>
  Two notes are created, the second a second after the first; and two notes are created
  while the clock is set back by a second in between.
\<close>

definition two_notes :: "(runtime \<times> operation) list" where
  "two_notes =
     [(runtime_at (ascii ''n1'') 1000, CreateNote (Given (ascii ''first'')) Omitted),
      (runtime_at (ascii ''n2'') 2000, CreateNote (Given (ascii ''second'')) Omitted)]"

definition clock_set_back :: "(runtime \<times> operation) list" where
  "clock_set_back =
     [(runtime_at (ascii ''n1'') 2000, CreateNote (Given (ascii ''first'')) Omitted),
      (runtime_at (ascii ''n2'') 1000, CreateNote (Given (ascii ''second'')) Omitted)]"

definition clock_ticks :: "(runtime \<times> operation) list" where
  "clock_ticks =
     [(runtime_ticking (ascii ''n1'') 1000, CreateNote (Given (ascii ''first'')) Omitted)]"

text \<open>
  Two notes, the later one with the tag \<^verbatim>\<open>idea\<close> before three spaces; and a note of two
  paragraphs with the tag before two spaces.
\<close>

definition check_idea :: "(runtime \<times> operation) list" where
  "check_idea =
     [(runtime_at (ascii ''n1'') 1000, CreateNote (Given (ascii ''keep #x'')) Omitted),
      (runtime_at (ascii ''n2'') 2000, CreateNote (Given (ascii ''Check #idea   now'')) Omitted)]"

definition paragraphs :: "(runtime \<times> operation) list" where
  "paragraphs =
     [(runtime_at (ascii ''n1'') 1000,
        CreateNote (Given (ascii ''one\<newline>\<newline>two #idea  three'')) Omitted)]"

section \<open>Reading and writing the store\<close>

text \<open>The definitions that evaluate an operation on a given store.\<close>

lemma evaluate_example:
  "ascii [] = []" "ascii (c # cs) = of_char c # ascii cs"
  by (simp_all add: ascii_def)

lemmas operation_defs =
  createNote_def updateNote_def togglePin_def moveToTrash_def restoreFromTrash_def
  deletePermanently_def renameTag_def deleteTag_def createFolder_def updateFolder_def
  deleteFolder_def getAllNotes_def

lemmas storage_defs =
  notes_of_def folders_of_def getNotesFromStorage_def getFoldersFromStorage_def
  saveNotesToStorage_def saveFoldersToStorage_def empty_store_def runtime_at_def
  runtime_ticking_def

lemmas string_defs =
  evaluate_example extractTags_def Array_from_Set_def RegExp_tag_def replace_tag_def
  lookahead_ok_def hash_def dollar_def space_def tag_char_def word_char_def white_space_def

lemma notes_of_Array: "getNotesFromStorage w = Array ns \<Longrightarrow> notes_of w = ns"
  by (simp add: notes_of_def)

lemma notes_of_saveNotes:
  "notes_of (saveNotesToStorage rt ns w) =
     (if setItem_ok rt STORAGE_KEY_NOTES then ns else notes_of w)"
  by (simp add: notes_of_def saveNotesToStorage_def getNotesFromStorage_def)

lemma notes_of_saveFolders: "notes_of (saveFoldersToStorage rt fs w) = notes_of w"
  by (simp add: notes_of_def saveFoldersToStorage_def getNotesFromStorage_def)

lemma folders_of_Array: "getFoldersFromStorage w = Array fs \<Longrightarrow> folders_of w = fs"
  by (simp add: folders_of_def)

lemma folders_of_saveNotes: "folders_of (saveNotesToStorage rt ns w) = folders_of w"
  by (simp add: folders_of_def saveNotesToStorage_def getFoldersFromStorage_def)

lemma folders_of_saveFolders:
  "folders_of (saveFoldersToStorage rt fs w) =
     (if setItem_ok rt STORAGE_KEY_FOLDERS then fs else folders_of w)"
  by (simp add: folders_of_def saveFoldersToStorage_def getFoldersFromStorage_def)

lemma findIndex_Some:
  "findIndex P xs = Some i \<Longrightarrow> i < length xs \<and> P (xs ! i) \<and> (\<forall>j<i. \<not> P (xs ! j))"
proof (induction xs arbitrary: i)
  case Nil
  then show ?case by simp
next
  case (Cons x xs)
  show ?case
  proof (cases "P x")
    case True
    with Cons.prems show ?thesis by simp
  next
    case False
    with Cons.prems obtain k where k: "findIndex P xs = Some k" "i = Suc k"
      by auto
    from Cons.IH [OF k(1)] False k(2) show ?thesis
      by (auto simp: less_Suc_eq_0_disj)
  qed
qed

lemma findIndex_None: "findIndex P xs = None \<longleftrightarrow> (\<forall>x\<in>set xs. \<not> P x)"
  by (induction xs) auto

lemma list_all_update: "list_all P xs \<Longrightarrow> P y \<Longrightarrow> list_all P (xs[i := y])"
  by (induction xs arbitrary: i) (auto split: nat.splits)

lemma list_all_nth: "list_all P xs \<Longrightarrow> i < length xs \<Longrightarrow> P (xs ! i)"
  by (simp add: list_all_length)

section \<open>What every operation keeps\<close>

lemma Note_update_swap:
  "n\<lparr>content := c, tags := t, updatedAt := u\<rparr> = n\<lparr>content := c, updatedAt := u, tags := t\<rparr>"
  by simp

lemma renameTag_map_list_all:
  assumes "list_all P ns"
    and "\<And>n c k. P n \<Longrightarrow>
        P (n\<lparr>content := c, updatedAt := Date_now rt k, tags := extractTags c\<rparr>)"
  shows "list_all P (renameTag_map rt replace oldTag newTag k ns)"
  using assms by (induction ns arbitrary: k) (simp_all add: Let_def Note_update_swap)

lemma deleteTag_map_list_all:
  assumes "list_all P ns"
    and "\<And>n c k. P n \<Longrightarrow>
        P (n\<lparr>content := c, updatedAt := Date_now rt k, tags := extractTags c\<rparr>)"
  shows "list_all P (deleteTag_map rt replace t k ns)"
  using assms by (induction ns arbitrary: k) (simp_all add: Let_def Note_update_swap)

lemma step_list_all:
  assumes inv: "list_all P (notes_of w)"
    and new: "\<And>i c k k' f. P \<lparr>id_note = i, content = c, createdAt = Date_now rt k,
        updatedAt = Date_now rt k', isPinned = False, isTrashed = False,
        tags = extractTags c, folderId = f\<rparr>"
    and edit: "\<And>n c k. P n \<Longrightarrow>
        P (n\<lparr>content := c, updatedAt := Date_now rt k, tags := extractTags c\<rparr>)"
    and move: "\<And>n f. P n \<Longrightarrow> P (n\<lparr>folderId := f\<rparr>)"
    and trash: "\<And>n. P n \<Longrightarrow> P (n\<lparr>isTrashed := True, isPinned := False\<rparr>)"
    and restore: "\<And>n. P n \<Longrightarrow> P (n\<lparr>isTrashed := False\<rparr>)"
    and pin: "\<And>n. P n \<Longrightarrow> n \<in> set (notes_of w) \<Longrightarrow> oper = TogglePin (id_note n)
        \<Longrightarrow> P (n\<lparr>isPinned := \<not> isPinned n\<rparr>)"
  shows "list_all P (notes_of (step rt oper w))"
proof (cases "getNotesFromStorage w")
  case Not_array
  then have "step rt oper w = w \<or> (\<exists>fs. step rt oper w = saveFoldersToStorage rt fs w)"
    by (cases oper)
      (auto simp: createNote_def updateNote_def togglePin_def moveToTrash_def
        restoreFromTrash_def deletePermanently_def renameTag_def deleteTag_def
        createFolder_def updateFolder_def deleteFolder_def Let_def
        split: collection.splits option.splits sum.splits)
  with inv show ?thesis by (auto simp: notes_of_saveFolders)
next
  case (Array ns)
  then have ns_eq: "notes_of w = ns" by (rule notes_of_Array)
  with inv have all: "list_all P ns" by simp
  show ?thesis
  proof (cases oper)
    case (CreateNote c f)
    with Array all new show ?thesis
      by (simp add: createNote_def Let_def notes_of_saveNotes ns_eq)
  next
    case (UpdateNote i c f)
    show ?thesis
    proof (cases "findIndex (\<lambda>n. id_note n = i) ns")
      case None
      with UpdateNote Array inv show ?thesis by (simp add: updateNote_def)
    next
      case (Some k)
      from findIndex_Some [OF Some] all have "P (ns ! k)"
        by (simp add: list_all_nth)
      then have "P ((ns ! k)\<lparr>content := c, updatedAt := Date_now rt 0, tags := extractTags c\<rparr>)"
        by (rule edit)
      then have "P (case f of Omitted \<Rightarrow> (ns ! k)\<lparr>content := c, updatedAt := Date_now rt 0, tags := extractTags c\<rparr>
          | Given g \<Rightarrow> (ns ! k)\<lparr>content := c, updatedAt := Date_now rt 0, tags := extractTags c, folderId := g\<rparr>)"
        using move by (cases f) simp_all
      with UpdateNote Array Some all show ?thesis
        by (simp add: updateNote_def Let_def notes_of_saveNotes ns_eq list_all_update)
    qed
  next
    case (TogglePin i)
    show ?thesis
    proof (cases "findIndex (\<lambda>n. id_note n = i) ns")
      case None
      with TogglePin Array inv show ?thesis by (simp add: togglePin_def)
    next
      case (Some k)
      from findIndex_Some [OF Some] all
      have k: "k < length ns" "id_note (ns ! k) = i" "P (ns ! k)"
        by (simp_all add: list_all_nth)
      then have "ns ! k \<in> set (notes_of w)" by (simp add: ns_eq)
      with k TogglePin have "P ((ns ! k)\<lparr>isPinned := \<not> isPinned (ns ! k)\<rparr>)"
        by (intro pin) simp_all
      with TogglePin Array Some all show ?thesis
        by (simp add: togglePin_def Let_def notes_of_saveNotes ns_eq list_all_update)
    qed
  next
    case (MoveToTrash i)
    show ?thesis
    proof (cases "findIndex (\<lambda>n. id_note n = i) ns")
      case None
      with MoveToTrash Array inv show ?thesis by (simp add: moveToTrash_def)
    next
      case (Some k)
      from findIndex_Some [OF Some] all
      have k: "k < length ns" "P (ns ! k)"
        by (simp_all add: list_all_nth)
      then have "P ((ns ! k)\<lparr>isTrashed := True, isPinned := False\<rparr>)"
        by (intro trash)
      with MoveToTrash Array Some all k show ?thesis
        by (simp add: moveToTrash_def Let_def notes_of_saveNotes ns_eq list_all_update)
    qed
  next
    case (RestoreFromTrash i)
    show ?thesis
    proof (cases "findIndex (\<lambda>n. id_note n = i) ns")
      case None
      with RestoreFromTrash Array inv show ?thesis by (simp add: restoreFromTrash_def)
    next
      case (Some k)
      from findIndex_Some [OF Some] all
      have k: "k < length ns" "P (ns ! k)"
        by (simp_all add: list_all_nth)
      then have "P ((ns ! k)\<lparr>isTrashed := False\<rparr>)"
        by (intro restore)
      with RestoreFromTrash Array Some all k show ?thesis
        by (simp add: restoreFromTrash_def Let_def notes_of_saveNotes ns_eq list_all_update)
    qed
  next
    case (DeletePermanently i)
    from all have "list_all P (filter (\<lambda>n. id_note n \<noteq> i) ns)"
      by (simp add: list_all_iff)
    with DeletePermanently Array all show ?thesis
      by (simp add: deletePermanently_def Let_def notes_of_saveNotes ns_eq)
  next
    case (RenameTag old new)
    show ?thesis
    proof (cases "RegExp_tag rt old")
      case (Inl e)
      with RenameTag inv show ?thesis by (simp add: renameTag_def Let_def)
    next
      case (Inr replace)
      have "list_all P (renameTag_map rt replace old new 0 ns)"
        using all edit by (rule renameTag_map_list_all)
      with RenameTag Array Inr all show ?thesis
        by (simp add: renameTag_def Let_def notes_of_saveNotes ns_eq)
    qed
  next
    case (DeleteTag t)
    show ?thesis
    proof (cases "RegExp_tag rt t")
      case (Inl e)
      with DeleteTag inv show ?thesis by (simp add: deleteTag_def Let_def)
    next
      case (Inr replace)
      have "list_all P (deleteTag_map rt replace t 0 ns)"
        using all edit by (rule deleteTag_map_list_all)
      with DeleteTag Array Inr all show ?thesis
        by (simp add: deleteTag_def Let_def notes_of_saveNotes ns_eq)
    qed
  next
    case (CreateFolder n p)
    with inv show ?thesis
      by (simp add: createFolder_def Let_def notes_of_saveFolders split: collection.splits)
  next
    case (UpdateFolder i n)
    with inv show ?thesis
      by (simp add: updateFolder_def Let_def notes_of_saveFolders
          split: collection.splits option.splits)
  next
    case (DeleteFolder i)
    from all move have "list_all P (map (\<lambda>n. if folderId n = Some i then n\<lparr>folderId := None\<rparr> else n) ns)"
      by (induction ns) simp_all
    with DeleteFolder Array all show ?thesis
      by (simp add: deleteFolder_def Let_def notes_of_saveNotes notes_of_saveFolders ns_eq
          split: collection.splits)
  qed
qed

section \<open>Trashed notes and the pin\<close>

lemma step_trash_inv:
  assumes "trash_inv w" and "\<not> toggles_trashed oper w"
  shows "trash_inv (step rt oper w)"
  unfolding trash_inv_def
proof (rule step_list_all)
  show "list_all (\<lambda>n. isTrashed n \<longrightarrow> \<not> isPinned n) (notes_of w)"
    using assms(1) by (simp add: trash_inv_def)
next
  fix n
  assume "n \<in> set (notes_of w)" and "oper = TogglePin (id_note n)"
  with assms(2) have "\<not> isTrashed n"
    by (auto simp: toggles_trashed_def list_ex_iff)
  then show "isTrashed (n\<lparr>isPinned := \<not> isPinned n\<rparr>) \<longrightarrow> \<not> isPinned (n\<lparr>isPinned := \<not> isPinned n\<rparr>)"
    by simp
qed simp_all

lemma run_trash_inv:
  "trash_inv w \<Longrightarrow> pins_outside_trash ops w \<Longrightarrow> trash_inv (run ops w)"
proof (induction ops arbitrary: w)
  case Nil
  then show ?case by simp
next
  case (Cons a ops)
  obtain rt oper where a: "a = (rt, oper)" by (cases a)
  from Cons.prems a have "trash_inv (step rt oper w)" "pins_outside_trash ops (step rt oper w)"
    by (simp_all add: step_trash_inv)
  then have "trash_inv (run ops (step rt oper w))" by (rule Cons.IH)
  with a show ?case by simp
qed

lemma trash_inv_empty_store: "trash_inv empty_store"
  by (simp add: trash_inv_def notes_of_def getNotesFromStorage_def empty_store_def)

lemma moveToTrash_found:
  assumes "getNotesFromStorage w = Array ns" and "findIndex (\<lambda>n. id_note n = i) ns = Some k"
  shows "notes_of (step rt (MoveToTrash i) w) =
    (if setItem_ok rt STORAGE_KEY_NOTES
     then ns[k := (ns ! k)\<lparr>isTrashed := True, isPinned := False\<rparr>] else ns)"
  using assms findIndex_Some [OF assms(2)]
  by (simp add: moveToTrash_def Let_def notes_of_saveNotes notes_of_Array)

lemma findIndex_cong_update:
  assumes "findIndex P xs = Some k" and "P y"
  shows "findIndex P (xs[k := y]) = Some k"
  using assms
proof (induction xs arbitrary: k)
  case Nil
  then show ?case by simp
next
  case (Cons x xs)
  then show ?case by (cases k) (auto split: if_splits)
qed

lemma moveToTrash_twice:
  assumes "setItem_ok rt STORAGE_KEY_NOTES"
  shows "notes_of (step rt' (MoveToTrash i) (step rt (MoveToTrash i) w)) =
         notes_of (step rt (MoveToTrash i) w)"
proof (cases "getNotesFromStorage w")
  case Not_array
  then show ?thesis by (simp add: moveToTrash_def)
next
  case (Array ns)
  show ?thesis
  proof (cases "findIndex (\<lambda>n. id_note n = i) ns")
    case None
    with Array show ?thesis by (simp add: moveToTrash_def)
  next
    case (Some k)
    let ?n = "(ns ! k)\<lparr>isTrashed := True, isPinned := False\<rparr>"
    let ?w = "step rt (MoveToTrash i) w"
    from findIndex_Some [OF Some] have k: "k < length ns" "id_note (ns ! k) = i" by simp_all
    from Array Some assms k have w: "getNotesFromStorage ?w = Array (ns[k := ?n])"
      by (simp add: moveToTrash_def Let_def saveNotesToStorage_def getNotesFromStorage_def)
    from k have idx: "findIndex (\<lambda>n. id_note n = i) (ns[k := ?n]) = Some k"
      by (intro findIndex_cong_update [OF Some]) simp
    from k show ?thesis
      by (simp only: moveToTrash_found [OF w idx] notes_of_Array [OF w]) simp
  qed
qed


text \<open>
  C1, as the code has it. \<^verbatim>\<open>togglePin\<close> flips \<^verbatim>\<open>isPinned\<close> of a trashed note as of any other,
  so a trashed note can be pinned. What holds: in every store reached from the empty
  store by operations none of which toggles the pin of a trashed note, no trashed note
  is pinned, and each such operation keeps that. \<^verbatim>\<open>moveToTrash\<close> of a stored identifier
  sets \<^verbatim>\<open>isTrashed\<close> and clears \<^verbatim>\<open>isPinned\<close> of the first note with that identifier, whatever
  they were, when the write is accepted; and a second \<^verbatim>\<open>moveToTrash\<close> of the same
  identifier leaves the notes as the first left them.
\<close>

theorem trashed_notes_unpinned_while_pins_outside_trash:
  "(pins_outside_trash ops empty_store \<longrightarrow> trash_inv (run ops empty_store)) \<and>
   (trash_inv w \<longrightarrow> \<not> toggles_trashed oper w \<longrightarrow> trash_inv (step rt oper w)) \<and>
   (getNotesFromStorage w = Array ns \<longrightarrow> findIndex (\<lambda>n. id_note n = i) ns = Some k \<longrightarrow>
      setItem_ok rt STORAGE_KEY_NOTES \<longrightarrow>
      notes_of (step rt (MoveToTrash i) w) =
        ns[k := (ns ! k)\<lparr>isTrashed := True, isPinned := False\<rparr>]) \<and>
   (setItem_ok rt STORAGE_KEY_NOTES \<longrightarrow>
      notes_of (step rt' (MoveToTrash i) (step rt (MoveToTrash i) w)) =
        notes_of (step rt (MoveToTrash i) w))"
  using run_trash_inv [OF trash_inv_empty_store] step_trash_inv moveToTrash_found
    moveToTrash_twice
  by simp

text \<open>
  The sequence \<open>pin_and_trash\<close> never toggles the pin of a trashed note: its last
  operation trashes a pinned note and leaves it unpinned, twice as once.
\<close>

theorem trashed_notes_unpinned_witness:
  "pins_outside_trash pin_and_trash empty_store \<and>
   trash_inv (run pin_and_trash empty_store) \<and>
   map (\<lambda>n. (isTrashed n, isPinned n)) (notes_of (run (butlast pin_and_trash) empty_store))
     = [(False, True)] \<and>
   map (\<lambda>n. (isTrashed n, isPinned n)) (notes_of (run pin_and_trash empty_store))
     = [(True, False)] \<and>
   notes_of (run (pin_and_trash @ [last pin_and_trash]) empty_store)
     = notes_of (run pin_and_trash empty_store)"
proof -
  have guarded: "pins_outside_trash pin_and_trash empty_store"
    by (simp add: pin_and_trash_def toggles_trashed_def operation_defs storage_defs
        string_defs Let_def)
  have before: "map (\<lambda>n. (isTrashed n, isPinned n))
      (notes_of (run (butlast pin_and_trash) empty_store)) = [(False, True)]"
    by (simp add: pin_and_trash_def operation_defs storage_defs string_defs Let_def)
  have after: "map (\<lambda>n. (isTrashed n, isPinned n))
      (notes_of (run pin_and_trash empty_store)) = [(True, False)]"
    by (simp add: pin_and_trash_def operation_defs storage_defs string_defs Let_def)
  have twice: "run (pin_and_trash @ [last pin_and_trash]) empty_store =
      step (runtime_at [] 3000) (MoveToTrash (ascii ''n1''))
        (step (runtime_at [] 3000) (MoveToTrash (ascii ''n1''))
          (run (butlast pin_and_trash) empty_store))"
    "run pin_and_trash empty_store =
      step (runtime_at [] 3000) (MoveToTrash (ascii ''n1''))
        (run (butlast pin_and_trash) empty_store)"
    by (simp_all add: pin_and_trash_def)
  have ok: "setItem_ok (runtime_at [] 3000) STORAGE_KEY_NOTES"
    by (simp add: runtime_at_def)
  from trashed_notes_unpinned_while_pins_outside_trash
    [where ops = pin_and_trash and rt = "runtime_at [] 3000" and rt' = "runtime_at [] 3000"
      and i = "ascii ''n1''" and w = "run (butlast pin_and_trash) empty_store"]
    guarded ok
  have "trash_inv (run pin_and_trash empty_store)"
    and "notes_of (run (pin_and_trash @ [last pin_and_trash]) empty_store)
      = notes_of (run pin_and_trash empty_store)"
    unfolding twice by blast+
  with guarded before after show ?thesis by simp
qed

text \<open>
  C1, as stated, fails: the sequence \<open>pin_in_trash\<close> starts from the empty store and
  leaves a note that is trashed and pinned.
\<close>

theorem trashed_note_pinned_counterexample:
  "map (\<lambda>n. (isTrashed n, isPinned n)) (notes_of (run pin_in_trash empty_store))
     = [(True, True)] \<and>
   \<not> trash_inv (run pin_in_trash empty_store)"
  by (simp add: trash_inv_def pin_in_trash_def operation_defs storage_defs string_defs Let_def)

section \<open>Tags follow the content\<close>

lemma step_tags_ok:
  assumes "tags_ok w"
  shows "tags_ok (step rt oper w)"
  unfolding tags_ok_def
  by (rule step_list_all) (use assms in \<open>simp_all add: tags_ok_def\<close>)

lemma run_tags_ok: "tags_ok w \<Longrightarrow> tags_ok (run ops w)"
proof (induction ops arbitrary: w)
  case Nil
  then show ?case by simp
next
  case (Cons a ops)
  then show ?case by (cases a) (simp add: step_tags_ok)
qed

lemma tags_ok_empty_store: "tags_ok empty_store"
  by (simp add: tags_ok_def storage_defs)

lemma map_update_same: "f y = f (xs ! k) \<Longrightarrow> map f (xs[k := y]) = map f xs"
  by (induction xs arbitrary: k) (auto split: nat.splits)

lemma togglePin_keeps_text:
  "map (\<lambda>n. (content n, tags n)) (notes_of (step rt (TogglePin i) w)) =
   map (\<lambda>n. (content n, tags n)) (notes_of w)"
  by (cases "getNotesFromStorage w")
    (auto simp: togglePin_def Let_def notes_of_saveNotes notes_of_Array map_update_same
      split: option.splits)

lemma moveToTrash_keeps_text:
  "map (\<lambda>n. (content n, tags n)) (notes_of (step rt (MoveToTrash i) w)) =
   map (\<lambda>n. (content n, tags n)) (notes_of w)"
  by (cases "getNotesFromStorage w")
    (auto simp: moveToTrash_def Let_def notes_of_saveNotes notes_of_Array map_update_same
      dest: findIndex_Some split: option.splits)

lemma restoreFromTrash_keeps_text:
  "map (\<lambda>n. (content n, tags n)) (notes_of (step rt (RestoreFromTrash i) w)) =
   map (\<lambda>n. (content n, tags n)) (notes_of w)"
  by (cases "getNotesFromStorage w")
    (auto simp: restoreFromTrash_def Let_def notes_of_saveNotes notes_of_Array map_update_same
      split: option.splits)

lemma Set_add_set: "set (Set_add acc xs) = set acc \<union> set xs"
  by (induction xs arbitrary: acc) auto

lemma Set_add_distinct: "distinct acc \<Longrightarrow> distinct (Set_add acc xs)"
  by (induction xs arbitrary: acc) auto

lemma set_extractTags: "set (extractTags s) = drop 1 ` set (match_hashTag s)"
  by (cases "match_hashTag s") (simp_all add: extractTags_def Array_from_Set_def Set_add_set)

lemma distinct_extractTags: "distinct (extractTags s)"
  by (simp add: extractTags_def Array_from_Set_def Set_add_distinct split: list.splits)

lemma not_tag_char_hash: "\<not> tag_char hash"
  by (simp add: tag_char_def word_char_def hash_def)

lemma dropWhile_tag_char_append_hash:
  "dropWhile tag_char (cs @ hash # rest) = dropWhile tag_char cs @ hash # rest"
  by (induction cs) (simp_all add: not_tag_char_hash)

lemma takeWhile_tag_char_append_hash:
  "takeWhile tag_char (cs @ hash # rest) = takeWhile tag_char cs"
  by (induction cs) (simp_all add: not_tag_char_hash)

lemma takeWhile_run:
  "list_all tag_char t \<Longrightarrow> lookahead_ok post \<Longrightarrow> takeWhile tag_char (t @ post) = t"
  by (induction t) (auto simp: lookahead_ok_def split: list.splits)

lemma lookahead_ok_dropWhile: "lookahead_ok (dropWhile tag_char cs)"
  by (induction cs) (simp_all add: lookahead_ok_def)

lemma match_hashTag_found:
  assumes "t \<noteq> []" "list_all tag_char t" "lookahead_ok post"
  shows "hash # t \<in> set (match_hashTag (pre @ hash # t @ post))"
proof (induction pre rule: length_induct)
  case (1 pre)
  show ?case
  proof (cases pre)
    case Nil
    with assms show ?thesis by (simp add: takeWhile_run)
  next
    case (Cons c cs)
    have "length (dropWhile tag_char cs) < length pre"
      using Cons by (simp add: less_Suc_eq_le length_dropWhile_le)
    with 1 have a: "hash # t \<in> set (match_hashTag (dropWhile tag_char cs @ hash # t @ post))"
      by blast
    from 1 Cons have b: "hash # t \<in> set (match_hashTag (cs @ hash # t @ post))"
      by simp
    from a b Cons show ?thesis
      by (simp add: dropWhile_tag_char_append_hash takeWhile_tag_char_append_hash)
  qed
qed

lemma match_hashTag_occurs:
  "m \<in> set (match_hashTag s) \<Longrightarrow>
   \<exists>pre t post. s = pre @ hash # t @ post \<and> m = hash # t \<and> t \<noteq> [] \<and> list_all tag_char t \<and>
     lookahead_ok post"
proof (induction s rule: match_hashTag.induct)
  case 1
  then show ?case by simp
next
  case (2 c cs)
  show ?case
  proof (cases "c = hash \<and> takeWhile tag_char cs \<noteq> []")
    case True
    show ?thesis
    proof (cases "m = c # takeWhile tag_char cs")
      case m: True
      have "lookahead_ok (dropWhile tag_char cs)"
        by (rule lookahead_ok_dropWhile)
      moreover have "list_all tag_char (takeWhile tag_char cs)"
        by (simp add: list_all_iff) (meson set_takeWhileD)
      ultimately show ?thesis
        using True m
        by (intro exI [of _ "[]"] exI [of _ "takeWhile tag_char cs"] exI [of _ "dropWhile tag_char cs"]) simp
    next
      case False
      with True "2.prems" have "m \<in> set (match_hashTag (dropWhile tag_char cs))" by simp
      from "2.IH"(1) [OF True this] obtain pre t post where
        *: "dropWhile tag_char cs = pre @ hash # t @ post" "m = hash # t" "t \<noteq> []"
           "list_all tag_char t" "lookahead_ok post"
        by blast
      have "c # cs = (c # takeWhile tag_char cs @ pre) @ hash # t @ post"
        using *(1) by (metis append.assoc append_Cons takeWhile_dropWhile_id)
      with * show ?thesis by blast
    qed
  next
    case False
    with "2.prems" have "m \<in> set (match_hashTag cs)" by auto
    from "2.IH"(2) [OF False this] obtain pre t post where
      *: "cs = pre @ hash # t @ post" "m = hash # t" "t \<noteq> []"
         "list_all tag_char t" "lookahead_ok post"
      by blast
    then have "c # cs = (c # pre) @ hash # t @ post" by simp
    with * show ?thesis by blast
  qed
qed

lemma extractTags_iff:
  "t \<in> set (extractTags s) \<longleftrightarrow>
   (\<exists>pre post. s = pre @ hash # t @ post \<and> t \<noteq> [] \<and> list_all tag_char t \<and> lookahead_ok post)"
proof
  assume "t \<in> set (extractTags s)"
  then obtain m where "m \<in> set (match_hashTag s)" "t = drop 1 m"
    by (auto simp: set_extractTags)
  with match_hashTag_occurs [of m s] obtain pre u post where
    "s = pre @ hash # u @ post" "m = hash # u" "u \<noteq> []" "list_all tag_char u" "lookahead_ok post"
    by blast
  with \<open>t = drop 1 m\<close> show "\<exists>pre post. s = pre @ hash # t @ post \<and> t \<noteq> [] \<and> list_all tag_char t \<and> lookahead_ok post"
    by auto
next
  assume "\<exists>pre post. s = pre @ hash # t @ post \<and> t \<noteq> [] \<and> list_all tag_char t \<and> lookahead_ok post"
  then obtain pre post where "s = pre @ hash # t @ post" "t \<noteq> []" "list_all tag_char t" "lookahead_ok post"
    by blast
  with match_hashTag_found [of t post pre] have "hash # t \<in> set (match_hashTag s)" by simp
  then have "drop 1 (hash # t) \<in> set (extractTags s)"
    unfolding set_extractTags by (rule imageI)
  then show "t \<in> set (extractTags s)" by simp
qed

text \<open>
  C2. In every store reached from the empty store the \<^verbatim>\<open>tags\<close> of every note are exactly
  \<^verbatim>\<open>extractTags\<close> of its \<^verbatim>\<open>content\<close>, and every operation keeps that; \<^verbatim>\<open>togglePin\<close>,
  \<^verbatim>\<open>moveToTrash\<close> and \<^verbatim>\<open>restoreFromTrash\<close> change neither the content nor the tags of any
  note. \<^verbatim>\<open>extractTags\<close> lists, without repetition, the texts \<open>t\<close> of one or more tag
  characters (word characters and the ideographs U+4E00 to U+9FA5) that stand in the
  content behind a \<^verbatim>\<open>#\<close> and before the end or a character that is no tag character.
\<close>

theorem tags_are_extracted_from_content:
  "tags_ok (run ops empty_store) \<and>
   (tags_ok w \<longrightarrow> tags_ok (step rt oper w)) \<and>
   map (\<lambda>n. (content n, tags n)) (notes_of (step rt (TogglePin i) w)) =
     map (\<lambda>n. (content n, tags n)) (notes_of w) \<and>
   map (\<lambda>n. (content n, tags n)) (notes_of (step rt (MoveToTrash i) w)) =
     map (\<lambda>n. (content n, tags n)) (notes_of w) \<and>
   map (\<lambda>n. (content n, tags n)) (notes_of (step rt (RestoreFromTrash i) w)) =
     map (\<lambda>n. (content n, tags n)) (notes_of w) \<and>
   distinct (extractTags s) \<and>
   (t \<in> set (extractTags s) \<longleftrightarrow>
      (\<exists>pre post. s = pre @ hash # t @ post \<and> t \<noteq> [] \<and> list_all tag_char t \<and>
         lookahead_ok post))"
  using run_tags_ok [OF tags_ok_empty_store] step_tags_ok togglePin_keeps_text
    moveToTrash_keeps_text restoreFromTrash_keeps_text distinct_extractTags
    extractTags_iff [of t s]
  by simp

text \<open>
  The store with the note \<^verbatim>\<open>Review #idea please\<close> has the tags of its content, before and
  after the tag is renamed.
\<close>

theorem tags_are_extracted_witness:
  "tags_ok (run review_note empty_store) \<and>
   tags_ok (step (fst rename_idea) (snd rename_idea) (run review_note empty_store)) \<and>
   map (\<lambda>n. (content n, tags n)) (notes_of (run review_note empty_store)) =
     [(ascii ''Review #idea please'', [ascii ''idea''])] \<and>
   map (\<lambda>n. (content n, tags n)) (notes_of (run (review_note @ [rename_idea]) empty_store)) =
     [(ascii ''Review #notion please'', [ascii ''notion''])]"
proof -
  have start: "tags_ok (run review_note empty_store)"
    by (simp add: tags_ok_def review_note_def operation_defs storage_defs string_defs Let_def)
  with tags_are_extracted_from_content
    [where w = "run review_note empty_store" and rt = "fst rename_idea"
      and oper = "snd rename_idea"]
  have "tags_ok (step (fst rename_idea) (snd rename_idea) (run review_note empty_store))"
    by blast
  moreover have "map (\<lambda>n. (content n, tags n)) (notes_of (run review_note empty_store)) =
      [(ascii ''Review #idea please'', [ascii ''idea''])]"
    by (simp add: review_note_def operation_defs storage_defs string_defs Let_def)
  moreover have "map (\<lambda>n. (content n, tags n))
      (notes_of (run (review_note @ [rename_idea]) empty_store)) =
      [(ascii ''Review #notion please'', [ascii ''notion''])]"
    by (simp add: review_note_def rename_idea_def operation_defs storage_defs string_defs
        Let_def)
  ultimately show ?thesis using start by simp
qed

section \<open>Deleting a folder\<close>





section \<open>Updating a note\<close>

lemma updateNote_found:
  assumes "getNotesFromStorage w = Array ns" and "findIndex (\<lambda>n. id_note n = i) ns = Some k"
  shows "updateNote rt i c farg w =
    (Inr (Some ((ns ! k)\<lparr>content := c, updatedAt := Date_now rt 0, tags := extractTags c,
        folderId := (case farg of Omitted \<Rightarrow> folderId (ns ! k) | Given f \<Rightarrow> f)\<rparr>)),
     saveNotesToStorage rt (ns[k := (ns ! k)\<lparr>content := c, updatedAt := Date_now rt 0,
        tags := extractTags c,
        folderId := (case farg of Omitted \<Rightarrow> folderId (ns ! k) | Given f \<Rightarrow> f)\<rparr>]) w)"
  using assms by (cases farg) (simp_all add: updateNote_def Let_def)

text \<open>
  C4. \<^verbatim>\<open>updateNote\<close> of a stored id, on a store that accepts the write. Let \<open>n'\<close> be the
  first note with that id, with the new content, \<^verbatim>\<open>Date.now()\<close> as \<^verbatim>\<open>updatedAt\<close> and the tags of
  the new content, and with every other field, \<^verbatim>\<open>folderId\<close> included, as it was. Called
  without \<^verbatim>\<open>folderId\<close> the operation returns and stores \<open>n'\<close>; called with \<^verbatim>\<open>null\<close> it
  returns and stores \<open>n'\<close> with \<^verbatim>\<open>folderId\<close> \<^verbatim>\<open>null\<close>; called with \<^verbatim>\<open>f\<close> it returns and stores
  \<open>n'\<close> with \<^verbatim>\<open>folderId\<close> \<^verbatim>\<open>f\<close>. The other notes stay as they were.
\<close>

theorem updateNote_folderId_three_call_shapes:
  fixes n' :: Note and c :: jsstring
  assumes "getNotesFromStorage w = Array ns" and "findIndex (\<lambda>n. id_note n = i) ns = Some k"
    and "setItem_ok rt STORAGE_KEY_NOTES"
  defines "n' \<equiv> (ns ! k)\<lparr>content := c, updatedAt := Date_now rt 0, tags := extractTags c\<rparr>"
  shows "k < length ns \<and> id_note (ns ! k) = i \<and>
    fst (updateNote rt i c Omitted w) = Inr (Some n') \<and>
    notes_of (snd (updateNote rt i c Omitted w)) = ns[k := n'] \<and>
    fst (updateNote rt i c (Given None) w) = Inr (Some (n'\<lparr>folderId := None\<rparr>)) \<and>
    notes_of (snd (updateNote rt i c (Given None) w)) = ns[k := n'\<lparr>folderId := None\<rparr>] \<and>
    fst (updateNote rt i c (Given (Some f)) w) = Inr (Some (n'\<lparr>folderId := Some f\<rparr>)) \<and>
    notes_of (snd (updateNote rt i c (Given (Some f)) w)) = ns[k := n'\<lparr>folderId := Some f\<rparr>] \<and>
    folderId n' = folderId (ns ! k) \<and> content n' = c \<and> tags n' = extractTags c \<and>
    updatedAt n' = Date_now rt 0"
  using findIndex_Some [OF assms(2)] assms(3)
  by (simp add: updateNote_found [OF assms(1,2)] notes_of_saveNotes n'_def)

text \<open>
  The note of \<open>note_in_folder\<close> is updated at time 2000 in the three ways: it stays in
  \<^verbatim>\<open>F0\<close>, goes to the root, goes to \<^verbatim>\<open>F1\<close>; each time it has the new content, the new tag
  and the new time.
\<close>

theorem updateNote_three_call_shapes_witness:
  "map (\<lambda>n. (content n, tags n, updatedAt n, folderId n))
     (notes_of (run note_in_folder empty_store)) =
     [(ascii ''old #a'', [ascii ''a''], 1000, Some (ascii ''F0''))] \<and>
   map (\<lambda>n. (content n, tags n, updatedAt n, folderId n))
     (notes_of (snd (updateNote (runtime_at [] 2000) (ascii ''n1'') (ascii ''new #b'') Omitted
        (run note_in_folder empty_store)))) =
     [(ascii ''new #b'', [ascii ''b''], 2000, Some (ascii ''F0''))] \<and>
   map (\<lambda>n. (content n, tags n, updatedAt n, folderId n))
     (notes_of (snd (updateNote (runtime_at [] 2000) (ascii ''n1'') (ascii ''new #b'')
        (Given None) (run note_in_folder empty_store)))) =
     [(ascii ''new #b'', [ascii ''b''], 2000, None)] \<and>
   map (\<lambda>n. (content n, tags n, updatedAt n, folderId n))
     (notes_of (snd (updateNote (runtime_at [] 2000) (ascii ''n1'') (ascii ''new #b'')
        (Given (Some (ascii ''F1''))) (run note_in_folder empty_store)))) =
     [(ascii ''new #b'', [ascii ''b''], 2000, Some (ascii ''F1''))]"
proof -
  define w where "w = run note_in_folder empty_store"
  define ns where "ns = notes_of w"
  have ns: "ns = [\<lparr>id_note = ascii ''n1'', content = ascii ''old #a'', createdAt = 1000,
      updatedAt = 1000, isPinned = False, isTrashed = False, tags = [ascii ''a''],
      folderId = Some (ascii ''F0'')\<rparr>]"
    by (simp add: ns_def w_def note_in_folder_def operation_defs storage_defs string_defs
        Let_def)
  have "bearclone_notes_v2 w = JSON_array ns"
    by (simp add: ns_def w_def note_in_folder_def operation_defs storage_defs string_defs
        Let_def)
  then have array: "getNotesFromStorage w = Array ns"
    by (simp add: getNotesFromStorage_def)
  have found: "findIndex (\<lambda>n. id_note n = ascii ''n1'') ns = Some 0"
    by (simp add: ns)
  have ok: "setItem_ok (runtime_at [] 2000) STORAGE_KEY_NOTES"
    by (simp add: runtime_at_def)
  have tags: "extractTags (ascii ''new #b'') = [ascii ''b'']"
    by (simp add: string_defs)
  have now: "Date_now (runtime_at [] 2000) 0 = 2000"
    by (simp add: runtime_at_def)
  note upd = updateNote_folderId_three_call_shapes
    [OF array found ok, of "ascii ''new #b''" "ascii ''F1''"]
  note omitted = upd [THEN conjunct2, THEN conjunct2, THEN conjunct2, THEN conjunct1]
  note null = upd [THEN conjunct2, THEN conjunct2, THEN conjunct2, THEN conjunct2,
      THEN conjunct2, THEN conjunct1]
  note given = upd [THEN conjunct2, THEN conjunct2, THEN conjunct2, THEN conjunct2,
      THEN conjunct2, THEN conjunct2, THEN conjunct2, THEN conjunct1]
  have "map (\<lambda>n. (content n, tags n, updatedAt n, folderId n)) ns =
      [(ascii ''old #a'', [ascii ''a''], 1000, Some (ascii ''F0''))]"
    by (simp add: ns)
  moreover have "map (\<lambda>n. (content n, tags n, updatedAt n, folderId n))
      (notes_of (snd (updateNote (runtime_at [] 2000) (ascii ''n1'') (ascii ''new #b'')
        Omitted w))) = [(ascii ''new #b'', [ascii ''b''], 2000, Some (ascii ''F0''))]"
    unfolding omitted tags now by (simp add: ns)
  moreover have "map (\<lambda>n. (content n, tags n, updatedAt n, folderId n))
      (notes_of (snd (updateNote (runtime_at [] 2000) (ascii ''n1'') (ascii ''new #b'')
        (Given None) w))) = [(ascii ''new #b'', [ascii ''b''], 2000, None)]"
    unfolding null tags now by (simp add: ns)
  moreover have "map (\<lambda>n. (content n, tags n, updatedAt n, folderId n))
      (notes_of (snd (updateNote (runtime_at [] 2000) (ascii ''n1'') (ascii ''new #b'')
        (Given (Some (ascii ''F1''))) w))) =
      [(ascii ''new #b'', [ascii ''b''], 2000, Some (ascii ''F1''))]"
    unfolding given tags now by (simp add: ns)
  ultimately show ?thesis
    unfolding w_def ns_def by (intro conjI)
qed

section \<open>Operations on an id that is not stored\<close>

lemma findIndex_absent: "i \<notin> f ` set xs \<Longrightarrow> findIndex (\<lambda>x. f x = i) xs = None"
  by (auto simp: findIndex_None)

lemma filter_absent: "i \<notin> f ` set xs \<Longrightarrow> filter (\<lambda>x. f x \<noteq> i) xs = xs"
  by (induction xs) auto

lemma note_operations_absent_id:
  assumes "getNotesFromStorage w = Array ns" and "i \<notin> id_note ` set ns"
  shows "updateNote rt i c farg w = (Inr None, w)"
    and "togglePin rt i w = (Inr None, w)"
    and "moveToTrash rt i w = (Inr (), w)"
    and "restoreFromTrash rt i w = (Inr (), w)"
    and "fst (deletePermanently rt i w) = Inr ()"
    and "notes_of (snd (deletePermanently rt i w)) = notes_of w"
    and "folders_of (snd (deletePermanently rt i w)) = folders_of w"
  using assms findIndex_absent [OF assms(2)] filter_absent [OF assms(2)]
  by (simp_all add: updateNote_def togglePin_def moveToTrash_def restoreFromTrash_def
      deletePermanently_def Let_def notes_of_saveNotes folders_of_saveNotes notes_of_Array)

lemma updateFolder_absent_id:
  assumes "getFoldersFromStorage w = Array fs" and "i \<notin> id_folder ` set fs"
  shows "updateFolder rt i nm w = (Inr (), w)"
  using assms findIndex_absent [OF assms(2)]
  by (simp add: updateFolder_def)

lemma map_promote_unchanged:
  "\<forall>f \<in> set fs. parentId f \<noteq> Some i \<Longrightarrow>
   map (\<lambda>f. if parentId f = Some i then f\<lparr>parentId := None\<rparr> else f) fs = fs"
  by (induction fs) simp_all

lemma deleteFolder_absent_id:
  assumes "getNotesFromStorage w = Array ns" and "getFoldersFromStorage w = Array fs"
    and "i \<notin> id_folder ` set fs"
  shows "fst (deleteFolder rt i w) = Inr ()"
    and "\<forall>f \<in> set fs. parentId f \<noteq> Some i \<Longrightarrow> folders_of (snd (deleteFolder rt i w)) = fs"
    and "\<forall>n \<in> set ns. folderId n \<noteq> Some i \<Longrightarrow> notes_of (snd (deleteFolder rt i w)) = ns"
proof -
  show "fst (deleteFolder rt i w) = Inr ()"
    using assms by (simp add: deleteFolder_def Let_def)
  show "folders_of (snd (deleteFolder rt i w)) = fs" if "\<forall>f \<in> set fs. parentId f \<noteq> Some i"
    using assms(1,2) filter_absent [OF assms(3)] map_promote_unchanged [OF that]
    by (simp add: deleteFolder_def Let_def folders_of_saveFolders folders_of_saveNotes
        folders_of_Array)
  show "notes_of (snd (deleteFolder rt i w)) = ns" if "\<forall>n \<in> set ns. folderId n \<noteq> Some i"
  proof -
    from that have "\<not> list_ex (\<lambda>n. folderId n = Some i) ns"
      by (simp add: list_ex_iff)
    with assms(1,2) show ?thesis
      by (simp add: deleteFolder_def Let_def notes_of_saveFolders notes_of_Array)
  qed
qed

text \<open>
  C7, as the code has it. On a store that holds the notes \<open>ns\<close> and the folders \<open>fs\<close>,
  an operation called with an id that no note (no folder) has throws nothing.
  \<^verbatim>\<open>updateNote\<close> and \<^verbatim>\<open>togglePin\<close> return \<^verbatim>\<open>null\<close>, \<^verbatim>\<open>moveToTrash\<close>, \<^verbatim>\<open>restoreFromTrash\<close> and
  \<^verbatim>\<open>updateFolder\<close> return, and all five leave the store untouched, without a write.
  \<^verbatim>\<open>deletePermanently\<close> writes the notes back as they were. \<^verbatim>\<open>deleteFolder\<close> still runs its
  two cascades: the folders stay as they were when no folder names the id as its parent,
  and the notes stay as they were when no note names the id as its folder.
\<close>

theorem absent_id_is_a_silent_no_op:
  assumes "getNotesFromStorage w = Array ns" and "getFoldersFromStorage w = Array fs"
  shows "(i \<notin> id_note ` set ns \<longrightarrow>
      updateNote rt i c farg w = (Inr None, w) \<and>
      togglePin rt i w = (Inr None, w) \<and>
      moveToTrash rt i w = (Inr (), w) \<and>
      restoreFromTrash rt i w = (Inr (), w) \<and>
      fst (deletePermanently rt i w) = Inr () \<and>
      notes_of (snd (deletePermanently rt i w)) = ns \<and>
      folders_of (snd (deletePermanently rt i w)) = fs) \<and>
    (i \<notin> id_folder ` set fs \<longrightarrow>
      updateFolder rt i nm w = (Inr (), w) \<and>
      fst (deleteFolder rt i w) = Inr () \<and>
      ((\<forall>f \<in> set fs. parentId f \<noteq> Some i) \<longrightarrow> folders_of (snd (deleteFolder rt i w)) = fs) \<and>
      ((\<forall>n \<in> set ns. folderId n \<noteq> Some i) \<longrightarrow> notes_of (snd (deleteFolder rt i w)) = ns))"
proof (intro conjI impI)
  assume absent: "i \<notin> id_note ` set ns"
  note n = note_operations_absent_id [OF assms(1) absent]
  show "updateNote rt i c farg w = (Inr None, w)" by (rule n)
  show "togglePin rt i w = (Inr None, w)" by (rule n)
  show "moveToTrash rt i w = (Inr (), w)" by (rule n)
  show "restoreFromTrash rt i w = (Inr (), w)" by (rule n)
  show "fst (deletePermanently rt i w) = Inr ()" by (rule n)
  show "notes_of (snd (deletePermanently rt i w)) = ns"
    using n(6) [of rt] notes_of_Array [OF assms(1)] by simp
  show "folders_of (snd (deletePermanently rt i w)) = fs"
    using n(7) [of rt] folders_of_Array [OF assms(2)] by simp
next
  assume absent: "i \<notin> id_folder ` set fs"
  show "updateFolder rt i nm w = (Inr (), w)"
    by (rule updateFolder_absent_id [OF assms(2) absent])
  show "fst (deleteFolder rt i w) = Inr ()"
    by (rule deleteFolder_absent_id(1) [OF assms absent])
  show "folders_of (snd (deleteFolder rt i w)) = fs" if "\<forall>f \<in> set fs. parentId f \<noteq> Some i"
    by (rule deleteFolder_absent_id(2) [OF assms absent that])
  show "notes_of (snd (deleteFolder rt i w)) = ns" if "\<forall>n \<in> set ns. folderId n \<noteq> Some i"
    by (rule deleteFolder_absent_id(3) [OF assms absent that])
qed

text \<open>
  The store of \<open>folder_with_child\<close> has neither a note nor a folder with the id \<^verbatim>\<open>zz\<close>, and
  nothing in it names \<^verbatim>\<open>zz\<close>: the seven operations leave its notes and folders as they are.
\<close>

theorem absent_id_witness:
  "ascii ''zz'' \<notin> id_note ` set (notes_of (run folder_with_child empty_store)) \<and>
   ascii ''zz'' \<notin> id_folder ` set (folders_of (run folder_with_child empty_store)) \<and>
   updateNote (runtime_at [] 9000) (ascii ''zz'') (ascii ''text'') Omitted
     (run folder_with_child empty_store) = (Inr None, run folder_with_child empty_store) \<and>
   togglePin (runtime_at [] 9000) (ascii ''zz'') (run folder_with_child empty_store) =
     (Inr None, run folder_with_child empty_store) \<and>
   moveToTrash (runtime_at [] 9000) (ascii ''zz'') (run folder_with_child empty_store) =
     (Inr (), run folder_with_child empty_store) \<and>
   restoreFromTrash (runtime_at [] 9000) (ascii ''zz'') (run folder_with_child empty_store) =
     (Inr (), run folder_with_child empty_store) \<and>
   notes_of (snd (deletePermanently (runtime_at [] 9000) (ascii ''zz'')
     (run folder_with_child empty_store))) = notes_of (run folder_with_child empty_store) \<and>
   updateFolder (runtime_at [] 9000) (ascii ''zz'') (ascii ''name'')
     (run folder_with_child empty_store) = (Inr (), run folder_with_child empty_store) \<and>
   folders_of (snd (deleteFolder (runtime_at [] 9000) (ascii ''zz'')
     (run folder_with_child empty_store))) = folders_of (run folder_with_child empty_store) \<and>
   notes_of (snd (deleteFolder (runtime_at [] 9000) (ascii ''zz'')
     (run folder_with_child empty_store))) = notes_of (run folder_with_child empty_store)"
proof -
  define w where "w = run folder_with_child empty_store"
  define ns where "ns = notes_of w"
  define fs where "fs = folders_of w"
  have "bearclone_notes_v2 w = JSON_array ns" "bearclone_folders_v1 w = JSON_array fs"
    by (simp_all add: ns_def fs_def w_def folder_with_child_def operation_defs storage_defs
        string_defs Let_def)
  then have arrays: "getNotesFromStorage w = Array ns" "getFoldersFromStorage w = Array fs"
    by (simp_all add: getNotesFromStorage_def getFoldersFromStorage_def)
  have ids: "map id_note ns = [ascii ''n2'', ascii ''n1'']"
    "map id_folder fs = [ascii ''F'', ascii ''C'']"
    "map folderId ns = [Some (ascii ''C''), Some (ascii ''F'')]"
    "map parentId fs = [None, Some (ascii ''F'')]"
    by (simp_all add: ns_def fs_def w_def folder_with_child_def operation_defs storage_defs
        string_defs Let_def)
  have "ascii ''zz'' \<notin> set (map id_note ns)" "ascii ''zz'' \<notin> set (map id_folder fs)"
    "Some (ascii ''zz'') \<notin> set (map folderId ns)" "Some (ascii ''zz'') \<notin> set (map parentId fs)"
    unfolding ids by (simp_all add: evaluate_example)
  then have absent: "ascii ''zz'' \<notin> id_note ` set ns" "ascii ''zz'' \<notin> id_folder ` set fs"
    and unnamed: "\<forall>f \<in> set fs. parentId f \<noteq> Some (ascii ''zz'')"
      "\<forall>n \<in> set ns. folderId n \<noteq> Some (ascii ''zz'')"
    by (auto simp: image_iff)
  note no_op = absent_id_is_a_silent_no_op [OF arrays, of "ascii ''zz''" "runtime_at [] 9000"
      "ascii ''text''" Omitted "ascii ''name''"]
  note on_notes = no_op [THEN conjunct1, rule_format, OF absent(1)]
  note on_folders = no_op [THEN conjunct2, rule_format, OF absent(2)]
  have "folders_of (snd (deleteFolder (runtime_at [] 9000) (ascii ''zz'') w)) = fs"
    using on_folders unnamed(1) by blast
  moreover have "notes_of (snd (deleteFolder (runtime_at [] 9000) (ascii ''zz'') w)) = ns"
    using on_folders unnamed(2) by blast
  moreover have "notes_of (snd (deletePermanently (runtime_at [] 9000) (ascii ''zz'') w)) = ns"
    using on_notes by blast
  moreover have "updateNote (runtime_at [] 9000) (ascii ''zz'') (ascii ''text'') Omitted w
      = (Inr None, w)"
    "togglePin (runtime_at [] 9000) (ascii ''zz'') w = (Inr None, w)"
    "moveToTrash (runtime_at [] 9000) (ascii ''zz'') w = (Inr (), w)"
    "restoreFromTrash (runtime_at [] 9000) (ascii ''zz'') w = (Inr (), w)"
    using on_notes by blast+
  moreover have "updateFolder (runtime_at [] 9000) (ascii ''zz'') (ascii ''name'') w
      = (Inr (), w)"
    using on_folders by blast
  ultimately show ?thesis
    using absent unfolding ns_def fs_def w_def by (intro conjI)
qed

text \<open>
  C7, as stated, fails for \<^verbatim>\<open>deleteFolder\<close>: the store of \<open>note_in_missing_folder\<close> has no
  folder \<^verbatim>\<open>X\<close>, and \<^verbatim>\<open>deleteFolder\<close> of \<^verbatim>\<open>X\<close> changes its note.
\<close>

theorem absent_folder_id_counterexample:
  "folders_of (run note_in_missing_folder empty_store) = [] \<and>
   map folderId (notes_of (run note_in_missing_folder empty_store)) = [Some (ascii ''X'')] \<and>
   fst (deleteFolder (runtime_at [] 2000) (ascii ''X'')
     (run note_in_missing_folder empty_store)) = Inr () \<and>
   map folderId (notes_of (snd (deleteFolder (runtime_at [] 2000) (ascii ''X'')
     (run note_in_missing_folder empty_store)))) = [None] \<and>
   notes_of (snd (deleteFolder (runtime_at [] 2000) (ascii ''X'')
     (run note_in_missing_folder empty_store))) \<noteq>
     notes_of (run note_in_missing_folder empty_store)"
  by (simp add: note_in_missing_folder_def operation_defs storage_defs string_defs Let_def)

section \<open>Items that cannot be read\<close>












section \<open>The listing of the notes\<close>

lemma sort_insert_insort_key:
  "sort_insert (\<lambda>a b. f b - f a) x ys = insort_key (\<lambda>a. - f a) x ys"
  for f :: "'a \<Rightarrow> int"
  by (induction ys) simp_all

lemma sort_by_sort_key:
  "sort_by (\<lambda>a b. f b - f a) xs = sort_key (\<lambda>a. - f a) xs"
  for f :: "'a \<Rightarrow> int"
  by (induction xs) (simp_all add: sort_by_def sort_key_def sort_insert_insort_key)

lemma sorted_wrt_descending:
  "sorted (map (\<lambda>a. - f a) xs) \<longleftrightarrow> sorted_wrt (\<lambda>a b. f b \<le> f a) xs"
  for f :: "'a \<Rightarrow> int"
  by (induction xs) auto

lemma sort_by_descending:
  "sorted_wrt (\<lambda>a b. f b \<le> f a) (sort_by (\<lambda>a b. f b - f a) xs)"
  for f :: "'a \<Rightarrow> int"
  using sorted_sort_key [of "\<lambda>a. - f a" xs]
  by (simp add: sort_by_sort_key sorted_wrt_descending)

lemma sort_by_mset: "mset (sort_by (\<lambda>a b. f b - f a) xs) = mset xs"
  for f :: "'a \<Rightarrow> int"
  by (simp add: sort_by_sort_key)

lemma sort_by_stable:
  "filter (\<lambda>a. f a = t) (sort_by (\<lambda>a b. f b - f a) xs) = filter (\<lambda>a. f a = t) xs"
  for f :: "'a \<Rightarrow> int"
  using sort_key_stable [of "\<lambda>a. - f a" "- t" xs]
  by (simp add: sort_by_sort_key)

lemma sort_insert_first:
  "\<forall>y \<in> set ys. f y \<le> f x \<Longrightarrow> sort_insert (\<lambda>a b. f b - f a) x ys = x # ys"
  for f :: "'a \<Rightarrow> int"
  by (cases ys) simp_all

lemma sort_by_newest_first:
  assumes "\<forall>y \<in> set xs. f y \<le> f x"
  shows "sort_by (\<lambda>a b. f b - f a) (x # xs) = x # sort_by (\<lambda>a b. f b - f a) xs"
proof -
  have "set (sort_by (\<lambda>a b. f b - f a) xs) = set xs"
    by (metis sort_by_mset set_mset_mset)
  with assms have "\<forall>y \<in> set (sort_by (\<lambda>a b. f b - f a) xs). f y \<le> f x" by simp
  then have "sort_insert (\<lambda>a b. f b - f a) x (sort_by (\<lambda>a b. f b - f a) xs) =
      x # sort_by (\<lambda>a b. f b - f a) xs"
    by (rule sort_insert_first)
  then show ?thesis by (simp add: sort_by_def)
qed

lemma createNote_array:
  assumes "getNotesFromStorage w = Array ns" and "setItem_ok rt STORAGE_KEY_NOTES"
  shows "fst (createNote rt c f w) = Inr \<lparr>id_note = generateId rt,
      content = (case c of Omitted \<Rightarrow> [] | Given s \<Rightarrow> s),
      createdAt = Date_now rt 0, updatedAt = Date_now rt 1, isPinned = False, isTrashed = False,
      tags = extractTags (case c of Omitted \<Rightarrow> [] | Given s \<Rightarrow> s),
      folderId = (case f of Omitted \<Rightarrow> None | Given g \<Rightarrow> g)\<rparr>"
    and "getNotesFromStorage (snd (createNote rt c f w)) = Array (\<lparr>id_note = generateId rt,
      content = (case c of Omitted \<Rightarrow> [] | Given s \<Rightarrow> s),
      createdAt = Date_now rt 0, updatedAt = Date_now rt 1, isPinned = False, isTrashed = False,
      tags = extractTags (case c of Omitted \<Rightarrow> [] | Given s \<Rightarrow> s),
      folderId = (case f of Omitted \<Rightarrow> None | Given g \<Rightarrow> g)\<rparr> # ns)"
  using assms
  by (simp_all add: createNote_def Let_def saveNotesToStorage_def getNotesFromStorage_def)

lemma holds_arrays_save:
  "holds_arrays w \<Longrightarrow> holds_arrays (saveNotesToStorage rt ns w)"
  "holds_arrays w \<Longrightarrow> holds_arrays (saveFoldersToStorage rt fs w)"
  by (simp_all add: holds_arrays_def saveNotesToStorage_def saveFoldersToStorage_def
      getNotesFromStorage_def getFoldersFromStorage_def)

lemma step_holds_arrays: "holds_arrays w \<Longrightarrow> holds_arrays (step rt oper w)"
  by (cases oper)
    (auto simp: operation_defs Let_def holds_arrays_save
      split: collection.splits option.splits sum.splits)

lemma run_holds_arrays: "holds_arrays w \<Longrightarrow> holds_arrays (run ops w)"
proof (induction ops arbitrary: w)
  case Nil
  then show ?case by simp
next
  case (Cons a ops)
  then show ?case by (cases a) (simp add: step_holds_arrays)
qed

lemma holds_arrays_empty_store: "holds_arrays empty_store"
  by (simp add: holds_arrays_def storage_defs)

lemma step_updatedAt_bounded:
  assumes "list_all (\<lambda>n. updatedAt n \<le> T) (notes_of w)" and "\<forall>k. Date_now rt k \<le> T"
  shows "list_all (\<lambda>n. updatedAt n \<le> T) (notes_of (step rt oper w))"
  by (rule step_list_all) (use assms in simp_all)

lemma run_updatedAt_bounded:
  assumes "list_all (\<lambda>n. updatedAt n \<le> T) (notes_of w)"
    and "\<forall>(rt, oper) \<in> set ops. \<forall>k. Date_now rt k \<le> T"
  shows "list_all (\<lambda>n. updatedAt n \<le> T) (notes_of (run ops w))"
  using assms
proof (induction ops arbitrary: w)
  case Nil
  then show ?case by simp
next
  case (Cons a ops)
  obtain rt oper where a: "a = (rt, oper)" by (cases a)
  with Cons.prems have "list_all (\<lambda>n. updatedAt n \<le> T) (notes_of (step rt oper w))"
    by (intro step_updatedAt_bounded) simp_all
  moreover from Cons.prems have "\<forall>(rt, oper) \<in> set ops. \<forall>k. Date_now rt k \<le> T"
    by simp
  ultimately have "list_all (\<lambda>n. updatedAt n \<le> T) (notes_of (run ops (step rt oper w)))"
    by (rule Cons.IH)
  with a show ?case by simp
qed

lemma run_append: "run (ops @ ops') w = run ops' (run ops w)"
  by (induction ops arbitrary: w) auto

lemma created_note_sorts_first:
  assumes clock: "\<forall>(rt', oper') \<in> set ops. \<forall>k. Date_now rt' k \<le> Date_now rt 1"
    and ok: "setItem_ok rt STORAGE_KEY_NOTES"
  shows "\<exists>new. fst (createNote rt c f (run ops empty_store)) = Inr new \<and>
    getAllNotes (run (ops @ [(rt, CreateNote c f)]) empty_store) =
      Inr (new # sort_by (\<lambda>a b. updatedAt b - updatedAt a) (notes_of (run ops empty_store)))"
proof -
  let ?w = "run ops empty_store"
  have "holds_arrays ?w"
    by (rule run_holds_arrays [OF holds_arrays_empty_store])
  then obtain ns where ns: "getNotesFromStorage ?w = Array ns"
    by (cases "getNotesFromStorage ?w") (simp_all add: holds_arrays_def)
  have "list_all (\<lambda>n. updatedAt n \<le> Date_now rt 1) (notes_of empty_store)"
    by (simp add: storage_defs)
  then have "list_all (\<lambda>n. updatedAt n \<le> Date_now rt 1) (notes_of ?w)"
    using clock by (rule run_updatedAt_bounded)
  then have bound: "\<forall>n \<in> set ns. updatedAt n \<le> Date_now rt 1"
    by (simp add: notes_of_Array [OF ns] list_all_iff)
  note created = createNote_array [OF ns ok, of c f]
  have "getAllNotes (step rt (CreateNote c f) ?w) =
      Inr (sort_by (\<lambda>a b. updatedAt b - updatedAt a) (\<lparr>id_note = generateId rt,
      content = (case c of Omitted \<Rightarrow> [] | Given s \<Rightarrow> s),
      createdAt = Date_now rt 0, updatedAt = Date_now rt 1, isPinned = False, isTrashed = False,
      tags = extractTags (case c of Omitted \<Rightarrow> [] | Given s \<Rightarrow> s),
      folderId = (case f of Omitted \<Rightarrow> None | Given g \<Rightarrow> g)\<rparr> # ns))"
    by (simp add: getAllNotes_def created(2))
  also have "\<dots> = Inr (\<lparr>id_note = generateId rt,
      content = (case c of Omitted \<Rightarrow> [] | Given s \<Rightarrow> s),
      createdAt = Date_now rt 0, updatedAt = Date_now rt 1, isPinned = False, isTrashed = False,
      tags = extractTags (case c of Omitted \<Rightarrow> [] | Given s \<Rightarrow> s),
      folderId = (case f of Omitted \<Rightarrow> None | Given g \<Rightarrow> g)\<rparr> #
      sort_by (\<lambda>a b. updatedAt b - updatedAt a) ns)"
    using bound by (subst sort_by_newest_first) simp_all
  finally show ?thesis
    using created(1) by (simp add: run_append notes_of_Array [OF ns])
qed

text \<open>
  C8, as the code has it. On a store that holds the notes \<open>ns\<close>, \<^verbatim>\<open>getAllNotes\<close> returns a
  rearrangement of \<open>ns\<close> in which \<^verbatim>\<open>updatedAt\<close> never increases, and notes with the same
  \<^verbatim>\<open>updatedAt\<close> keep their stored order. When the write is accepted, \<^verbatim>\<open>createNote\<close> puts the
  new note in front of \<open>ns\<close>; its \<^verbatim>\<open>createdAt\<close> is the first and its \<^verbatim>\<open>updatedAt\<close> the second
  reading of the clock (the same value when the clock did not move in between). The new
  note is the first of the next listing whenever no stored note has a later \<^verbatim>\<open>updatedAt\<close>;
  that is so in every store reached from the empty store by operations that read no
  later time from the clock than the new note's \<^verbatim>\<open>updatedAt\<close>.
\<close>

theorem notes_are_listed_latest_first:
  "(getNotesFromStorage w = Array ns \<longrightarrow>
      getAllNotes w = Inr (sort_by (\<lambda>a b. updatedAt b - updatedAt a) ns) \<and>
      mset (sort_by (\<lambda>a b. updatedAt b - updatedAt a) ns) = mset ns \<and>
      sorted_wrt (\<lambda>a b. updatedAt b \<le> updatedAt a)
        (sort_by (\<lambda>a b. updatedAt b - updatedAt a) ns) \<and>
      filter (\<lambda>n. updatedAt n = t) (sort_by (\<lambda>a b. updatedAt b - updatedAt a) ns) =
        filter (\<lambda>n. updatedAt n = t) ns) \<and>
   (getNotesFromStorage w = Array ns \<longrightarrow> setItem_ok rt STORAGE_KEY_NOTES \<longrightarrow>
      (\<exists>new. fst (createNote rt c f w) = Inr new \<and>
         getNotesFromStorage (snd (createNote rt c f w)) = Array (new # ns) \<and>
         createdAt new = Date_now rt 0 \<and> updatedAt new = Date_now rt 1 \<and>
         (Date_now rt 0 = Date_now rt 1 \<longrightarrow> createdAt new = updatedAt new) \<and>
         ((\<forall>n \<in> set ns. updatedAt n \<le> Date_now rt 1) \<longrightarrow>
            getAllNotes (snd (createNote rt c f w)) =
              Inr (new # sort_by (\<lambda>a b. updatedAt b - updatedAt a) ns)))) \<and>
   ((\<forall>(rt', oper') \<in> set ops. \<forall>k. Date_now rt' k \<le> Date_now rt 1) \<longrightarrow>
      setItem_ok rt STORAGE_KEY_NOTES \<longrightarrow>
      (\<exists>new. fst (createNote rt c f (run ops empty_store)) = Inr new \<and>
         getAllNotes (run (ops @ [(rt, CreateNote c f)]) empty_store) =
           Inr (new # sort_by (\<lambda>a b. updatedAt b - updatedAt a)
             (notes_of (run ops empty_store)))))"
proof (intro conjI impI)
  assume ns: "getNotesFromStorage w = Array ns"
  show "getAllNotes w = Inr (sort_by (\<lambda>a b. updatedAt b - updatedAt a) ns)"
    by (simp add: getAllNotes_def ns)
  show "mset (sort_by (\<lambda>a b. updatedAt b - updatedAt a) ns) = mset ns"
    by (rule sort_by_mset)
  show "sorted_wrt (\<lambda>a b. updatedAt b \<le> updatedAt a)
      (sort_by (\<lambda>a b. updatedAt b - updatedAt a) ns)"
    by (rule sort_by_descending)
  show "filter (\<lambda>n. updatedAt n = t) (sort_by (\<lambda>a b. updatedAt b - updatedAt a) ns) =
      filter (\<lambda>n. updatedAt n = t) ns"
    by (rule sort_by_stable)
next
  assume ns: "getNotesFromStorage w = Array ns" and ok: "setItem_ok rt STORAGE_KEY_NOTES"
  note created = createNote_array [OF ns ok, of c f]
  show "\<exists>new. fst (createNote rt c f w) = Inr new \<and>
      getNotesFromStorage (snd (createNote rt c f w)) = Array (new # ns) \<and>
      createdAt new = Date_now rt 0 \<and> updatedAt new = Date_now rt 1 \<and>
      (Date_now rt 0 = Date_now rt 1 \<longrightarrow> createdAt new = updatedAt new) \<and>
      ((\<forall>n \<in> set ns. updatedAt n \<le> Date_now rt 1) \<longrightarrow>
         getAllNotes (snd (createNote rt c f w)) =
           Inr (new # sort_by (\<lambda>a b. updatedAt b - updatedAt a) ns))"
    unfolding created getAllNotes_def
    by (intro exI conjI impI refl) (simp_all add: sort_by_newest_first)
next
  assume "\<forall>(rt', oper') \<in> set ops. \<forall>k. Date_now rt' k \<le> Date_now rt 1"
    and "setItem_ok rt STORAGE_KEY_NOTES"
  then show "\<exists>new. fst (createNote rt c f (run ops empty_store)) = Inr new \<and>
      getAllNotes (run (ops @ [(rt, CreateNote c f)]) empty_store) =
        Inr (new # sort_by (\<lambda>a b. updatedAt b - updatedAt a)
          (notes_of (run ops empty_store)))"
    by (rule created_note_sorts_first)
qed

text \<open>
  After the two notes of \<open>two_notes\<close>, created at 1000 and 2000, a third note is created
  at 3000: the listing has the third note first, then the second, then the first.
\<close>

theorem notes_are_listed_latest_first_witness:
  "map_sum (\<lambda>e. e) (map (\<lambda>n. (id_note n, updatedAt n))) (getAllNotes (run two_notes empty_store)) =
     Inr [(ascii ''n2'', 2000), (ascii ''n1'', 1000)] \<and>
   map_sum (\<lambda>e. e) (map (\<lambda>n. (id_note n, updatedAt n)))
     (getAllNotes (run (two_notes @
        [(runtime_at (ascii ''n3'') 3000, CreateNote (Given (ascii ''third'')) Omitted)])
        empty_store)) =
     Inr [(ascii ''n3'', 3000), (ascii ''n2'', 2000), (ascii ''n1'', 1000)]"
proof -
  define rt where "rt = runtime_at (ascii ''n3'') 3000"
  define w where "w = run two_notes empty_store"
  define ns where "ns = notes_of w"
  have "bearclone_notes_v2 w = JSON_array ns"
    by (simp add: ns_def w_def two_notes_def operation_defs storage_defs string_defs Let_def)
  then have array: "getNotesFromStorage w = Array ns"
    by (simp add: getNotesFromStorage_def)
  have ns: "map (\<lambda>n. (id_note n, updatedAt n)) ns = [(ascii ''n2'', 2000), (ascii ''n1'', 1000)]"
    by (simp add: ns_def w_def two_notes_def operation_defs storage_defs string_defs Let_def)
  have sorted: "sort_by (\<lambda>a b. updatedAt b - updatedAt a) ns = ns"
    by (simp add: ns_def w_def two_notes_def operation_defs storage_defs string_defs Let_def
        sort_by_def)
  have clock: "\<forall>(rt', oper') \<in> set two_notes. \<forall>k. Date_now rt' k \<le> Date_now rt 1"
    by (simp add: two_notes_def rt_def runtime_at_def)
  have ok: "setItem_ok rt STORAGE_KEY_NOTES"
    by (simp add: rt_def runtime_at_def)
  note latest_first = notes_are_listed_latest_first
    [where w = w and ns = ns and ops = two_notes and rt = rt
      and c = "Given (ascii ''third'')" and f = Omitted]
  from latest_first array have "getAllNotes w = Inr (sort_by (\<lambda>a b. updatedAt b - updatedAt a) ns)"
    by blast
  then have before: "map_sum (\<lambda>e. e) (map (\<lambda>n. (id_note n, updatedAt n))) (getAllNotes w) =
      Inr [(ascii ''n2'', 2000), (ascii ''n1'', 1000)]"
    by (simp add: sorted ns)
  from latest_first clock ok obtain new where
    new: "fst (createNote rt (Given (ascii ''third'')) Omitted w) = Inr new"
    and listing: "getAllNotes (run (two_notes @ [(rt, CreateNote (Given (ascii ''third'')) Omitted)])
        empty_store) = Inr (new # sort_by (\<lambda>a b. updatedAt b - updatedAt a) ns)"
    unfolding w_def [symmetric] ns_def [symmetric] by blast
  from new array have "id_note new = ascii ''n3''" "updatedAt new = 3000"
    by (auto simp: createNote_def Let_def rt_def runtime_at_def)
  with listing have "map_sum (\<lambda>e. e) (map (\<lambda>n. (id_note n, updatedAt n)))
      (getAllNotes (run (two_notes @ [(rt, CreateNote (Given (ascii ''third'')) Omitted)])
        empty_store)) =
      Inr [(ascii ''n3'', 3000), (ascii ''n2'', 2000), (ascii ''n1'', 1000)]"
    by (simp add: sorted ns)
  with before show ?thesis
    unfolding w_def rt_def by simp
qed

text \<open>
  C8, as stated, fails in two places. When the clock moves between the two readings of
  \<^verbatim>\<open>createNote\<close>, \<^verbatim>\<open>createdAt\<close> and \<^verbatim>\<open>updatedAt\<close> of the new note differ. When the clock was set
  back before \<^verbatim>\<open>createNote\<close>, the new note \<^verbatim>\<open>n2\<close> stands first in the store and second in
  the listing.
\<close>

theorem created_note_clock_counterexample:
  "map (\<lambda>n. (createdAt n, updatedAt n)) (notes_of (run clock_ticks empty_store)) =
     [(1000, 1001)] \<and>
   map (\<lambda>n. (id_note n, updatedAt n)) (notes_of (run clock_set_back empty_store)) =
     [(ascii ''n2'', 1000), (ascii ''n1'', 2000)] \<and>
   map_sum (\<lambda>e. e) (map (\<lambda>n. (id_note n, updatedAt n)))
     (getAllNotes (run clock_set_back empty_store)) =
     Inr [(ascii ''n1'', 2000), (ascii ''n2'', 1000)]"
  by (simp add: clock_ticks_def clock_set_back_def operation_defs storage_defs string_defs
      Let_def sort_by_def)

section \<open>Tag tokens and white space\<close>

lemma GetSubstitution_plain:
  "dollar \<notin> set template \<Longrightarrow> GetSubstitution matched pre post template = template"
  by (induction matched pre post template rule: GetSubstitution.induct) auto

lemma token_match:
  assumes "list_all tag_char tag"
  shows "take (length tag) cs = tag \<and> lookahead_ok (drop (length tag) cs) \<longleftrightarrow>
    takeWhile tag_char cs = tag"
proof
  assume a: "take (length tag) cs = tag \<and> lookahead_ok (drop (length tag) cs)"
  then have "cs = tag @ drop (length tag) cs"
    by (metis append_take_drop_id)
  with a assms takeWhile_run [of tag "drop (length tag) cs"] show "takeWhile tag_char cs = tag"
    by simp
next
  assume t: "takeWhile tag_char cs = tag"
  then have cs: "cs = tag @ dropWhile tag_char cs"
    by (metis takeWhile_dropWhile_id)
  then have "take (length tag) cs = tag" "drop (length tag) cs = dropWhile tag_char cs"
    by (metis append_eq_conv_conj)+
  then show "take (length tag) cs = tag \<and> lookahead_ok (drop (length tag) cs)"
    by (simp add: lookahead_ok_dropWhile)
qed

lemma token_rest:
  "takeWhile tag_char cs = tag \<Longrightarrow> drop (length tag) cs = dropWhile tag_char cs"
  by (metis append_eq_conv_conj takeWhile_dropWhile_id)

lemma replace_from_spec:
  assumes "list_all tag_char tag" and "dollar \<notin> set template"
  shows "replace_from tag template passed s = spec_replace_tokens tag template s"
proof (induction s arbitrary: passed rule: length_induct)
  case (1 s)
  show ?case
  proof (cases s)
    case Nil
    then show ?thesis by simp
  next
    case (Cons c cs)
    show ?thesis
    proof (cases "c = hash \<and> takeWhile tag_char cs = tag")
      case True
      then have m: "take (length tag) cs = tag \<and> lookahead_ok (drop (length tag) cs)"
        using token_match [OF assms(1)] by blast
      have "length (dropWhile tag_char cs) < length s"
        using Cons by (simp add: less_Suc_eq_le length_dropWhile_le)
      with 1 have "replace_from tag template (passed @ hash # tag) (dropWhile tag_char cs) =
          spec_replace_tokens tag template (dropWhile tag_char cs)"
        by blast
      with True m Cons show ?thesis
        by (simp add: GetSubstitution_plain [OF assms(2)] token_rest)
    next
      case False
      then have m: "\<not> (c = hash \<and> take (length tag) cs = tag \<and> lookahead_ok (drop (length tag) cs))"
        using token_match [OF assms(1)] by blast
      from 1 Cons have "replace_from tag template (passed @ [c]) cs = spec_replace_tokens tag template cs"
        by simp
      with False m Cons show ?thesis by auto
    qed
  qed
qed

lemma replace_tag_spec:
  "list_all tag_char tag \<Longrightarrow> dollar \<notin> set template \<Longrightarrow>
   replace_tag tag s template = spec_replace_tokens tag template s"
  by (simp add: replace_tag_def replace_from_spec)

lemma spec_replace_tokens_tag_chars:
  "list_all tag_char xs \<Longrightarrow> spec_replace_tokens tag r (xs @ ys) = xs @ spec_replace_tokens tag r ys"
proof (induction xs)
  case Nil
  then show ?case by simp
next
  case (Cons x xs)
  then have "x \<noteq> hash" using not_tag_char_hash by auto
  with Cons show ?case by simp
qed

lemma lookahead_ok_removed:
  "lookahead_ok s \<Longrightarrow> lookahead_ok (spec_replace_tokens tag [] s)"
proof (induction s rule: length_induct)
  case (1 s)
  show ?case
  proof (cases s)
    case Nil
    then show ?thesis by (simp add: lookahead_ok_def)
  next
    case (Cons c cs)
    with "1.prems" have c: "\<not> tag_char c" by (simp add: lookahead_ok_def)
    show ?thesis
    proof (cases "c = hash \<and> takeWhile tag_char cs = tag")
      case True
      have "length (dropWhile tag_char cs) < length s"
        using Cons by (simp add: less_Suc_eq_le length_dropWhile_le)
      with "1.IH" lookahead_ok_dropWhile
      have "lookahead_ok (spec_replace_tokens tag [] (dropWhile tag_char cs))" by blast
      with True Cons show ?thesis by simp
    next
      case False
      with Cons c show ?thesis by (auto simp: lookahead_ok_def)
    qed
  qed
qed

lemma takeWhile_lookahead: "lookahead_ok s \<Longrightarrow> takeWhile tag_char s = []"
  by (cases s) (simp_all add: lookahead_ok_def)

lemma dropWhile_lookahead: "lookahead_ok s \<Longrightarrow> dropWhile tag_char s = s"
  by (cases s) (simp_all add: lookahead_ok_def)

lemma takeWhile_run_ok:
  "list_all tag_char xs \<Longrightarrow> lookahead_ok ys \<Longrightarrow> takeWhile tag_char (xs @ ys) = xs"
  by (rule takeWhile_run)

lemma dropWhile_run_ok:
  "list_all tag_char xs \<Longrightarrow> lookahead_ok ys \<Longrightarrow> dropWhile tag_char (xs @ ys) = ys"
  by (induction xs) (simp_all add: dropWhile_lookahead)

lemma list_all_takeWhile: "list_all P (takeWhile P xs)"
  by (induction xs) simp_all

lemma match_hashTag_removed:
  assumes "tag \<noteq> []"
  shows "set (match_hashTag (spec_replace_tokens tag [] s)) = set (match_hashTag s) - {hash # tag}"
proof (induction s rule: length_induct)
  case (1 s)
  show ?case
  proof (cases s)
    case Nil
    then show ?thesis by simp
  next
    case (Cons c cs)
    let ?run = "takeWhile tag_char cs" and ?rest = "dropWhile tag_char cs"
    have rest: "set (match_hashTag (spec_replace_tokens tag [] ?rest)) =
        set (match_hashTag ?rest) - {hash # tag}"
      using 1 Cons by (simp add: less_Suc_eq_le length_dropWhile_le)
    have tail: "set (match_hashTag (spec_replace_tokens tag [] cs)) =
        set (match_hashTag cs) - {hash # tag}"
      using 1 Cons by simp
    have ok: "lookahead_ok (spec_replace_tokens tag [] ?rest)"
      by (rule lookahead_ok_removed [OF lookahead_ok_dropWhile])
    have cs: "cs = ?run @ ?rest" by simp
    show ?thesis
    proof (cases "c = hash")
      case False
      with Cons tail show ?thesis by simp
    next
      case True
      consider (same) "?run = tag" | (other) "?run \<noteq> tag" "?run \<noteq> []" | (none) "?run = []"
        by blast
      then show ?thesis
      proof cases
        case same
        from same True Cons have l: "spec_replace_tokens tag [] s = spec_replace_tokens tag [] ?rest"
          by simp
        from same True Cons assms have r: "match_hashTag s = (hash # tag) # match_hashTag ?rest"
          by simp
        show ?thesis unfolding l r rest by auto
      next
        case other
        have "spec_replace_tokens tag [] (?run @ ?rest) = ?run @ spec_replace_tokens tag [] ?rest"
          by (rule spec_replace_tokens_tag_chars [OF list_all_takeWhile])
        then have "spec_replace_tokens tag [] cs = ?run @ spec_replace_tokens tag [] ?rest"
          by simp
        with other True Cons
        have l: "spec_replace_tokens tag [] s = hash # ?run @ spec_replace_tokens tag [] ?rest"
          by simp
        have t: "takeWhile tag_char (?run @ spec_replace_tokens tag [] ?rest) = ?run"
          by (rule takeWhile_run_ok [OF list_all_takeWhile ok])
        have d: "dropWhile tag_char (?run @ spec_replace_tokens tag [] ?rest) =
            spec_replace_tokens tag [] ?rest"
          by (rule dropWhile_run_ok [OF list_all_takeWhile ok])
        from other have l': "match_hashTag (hash # ?run @ spec_replace_tokens tag [] ?rest) =
            (hash # ?run) # match_hashTag (spec_replace_tokens tag [] ?rest)"
          by (simp only: match_hashTag.simps t d) simp
        from other True Cons have r: "match_hashTag s = (hash # ?run) # match_hashTag ?rest"
          by simp
        from other have "hash # ?run \<noteq> hash # tag" by simp
        then show ?thesis unfolding l l' r using rest by auto
      next
        case none
        then have "?rest = cs" by (metis cs append_Nil)
        with ok have e: "takeWhile tag_char (spec_replace_tokens tag [] cs) = []"
          by (simp add: takeWhile_lookahead)
        from none True Cons assms have l: "spec_replace_tokens tag [] s = hash # spec_replace_tokens tag [] cs"
          by auto
        have l': "match_hashTag (hash # spec_replace_tokens tag [] cs) =
            match_hashTag (spec_replace_tokens tag [] cs)"
          by (simp only: match_hashTag.simps e) simp
        from none True Cons have r: "match_hashTag s = match_hashTag cs"
          by simp
        show ?thesis unfolding l l' r by (rule tail)
      qed
    qed
  qed
qed

lemma extractTags_removed:
  assumes "tag \<noteq> []"
  shows "set (extractTags (spec_replace_tokens tag [] s)) = set (extractTags s) - {tag}"
proof -
  have "drop 1 ` (set (match_hashTag s) - {hash # tag}) = drop 1 ` set (match_hashTag s) - {tag}"
  proof -
    have "m = hash # tag" if "m \<in> set (match_hashTag s)" "drop 1 m = tag" for m
    proof -
      from match_hashTag_occurs [OF that(1)] obtain t where "m = hash # t" by blast
      with that(2) show ?thesis by simp
    qed
    then show ?thesis by force
  qed
  then show ?thesis
    by (simp add: set_extractTags match_hashTag_removed [OF assms])
qed

lemma not_white_space_tag_char: "tag_char c \<Longrightarrow> \<not> white_space c"
  by (auto simp: tag_char_def word_char_def white_space_def)

lemma not_white_space_hash: "\<not> white_space hash"
  by (simp add: white_space_def hash_def)

lemma not_tag_char_space: "\<not> tag_char space"
  by (simp add: tag_char_def word_char_def space_def)

lemma replace_spaces_plain:
  "list_all (\<lambda>c. \<not> white_space c) xs \<Longrightarrow> replace_spaces (xs @ ys) = xs @ replace_spaces ys"
  by (induction xs) simp_all

lemma replace_spaces_tag_chars:
  "list_all tag_char xs \<Longrightarrow> replace_spaces (xs @ ys) = xs @ replace_spaces ys"
  by (rule replace_spaces_plain) (auto simp: list_all_iff not_white_space_tag_char)

lemma lookahead_ok_replace_spaces: "lookahead_ok s \<Longrightarrow> lookahead_ok (replace_spaces s)"
  by (cases s) (auto simp: lookahead_ok_def not_tag_char_space)

lemma match_hashTag_skip_spaces: "match_hashTag (dropWhile white_space cs) = match_hashTag cs"
proof (induction cs)
  case Nil
  then show ?case by simp
next
  case (Cons c cs)
  show ?case
  proof (cases "white_space c")
    case True
    then have "c \<noteq> hash" using not_white_space_hash by auto
    with True Cons show ?thesis by simp
  next
    case False
    then show ?thesis by simp
  qed
qed

lemma match_hashTag_replace_spaces: "match_hashTag (replace_spaces s) = match_hashTag s"
proof (induction s rule: length_induct)
  case (1 s)
  show ?case
  proof (cases s)
    case Nil
    then show ?thesis by simp
  next
    case (Cons c cs)
    let ?run = "takeWhile tag_char cs" and ?rest = "dropWhile tag_char cs"
    have tail: "match_hashTag (replace_spaces cs) = match_hashTag cs"
      using 1 Cons by simp
    show ?thesis
    proof (cases "white_space c \<and> takeWhile white_space cs \<noteq> []")
      case True
      then have c: "c \<noteq> hash" using not_white_space_hash by auto
      have "match_hashTag (replace_spaces (dropWhile white_space cs)) =
          match_hashTag (dropWhile white_space cs)"
        using 1 Cons by (simp add: less_Suc_eq_le length_dropWhile_le)
      then have "match_hashTag (replace_spaces (dropWhile white_space cs)) = match_hashTag cs"
        by (simp add: match_hashTag_skip_spaces)
      moreover have "space \<noteq> hash" by (simp add: space_def hash_def)
      ultimately show ?thesis using True c Cons by simp
    next
      case False
      then have l: "replace_spaces s = c # replace_spaces cs"
        using Cons by auto
      show ?thesis
      proof (cases "c = hash")
        case c: False
        with tail Cons show ?thesis unfolding l by simp
      next
        case c: True
        have rest: "match_hashTag (replace_spaces ?rest) = match_hashTag ?rest"
          using 1 Cons by (simp add: less_Suc_eq_le length_dropWhile_le)
        have ok: "lookahead_ok (replace_spaces ?rest)"
          by (rule lookahead_ok_replace_spaces [OF lookahead_ok_dropWhile])
        have "replace_spaces (?run @ ?rest) = ?run @ replace_spaces ?rest"
          by (rule replace_spaces_tag_chars [OF list_all_takeWhile])
        then have cs: "replace_spaces cs = ?run @ replace_spaces ?rest" by simp
        have t: "takeWhile tag_char (replace_spaces cs) = ?run"
          unfolding cs by (rule takeWhile_run_ok [OF list_all_takeWhile ok])
        have d: "dropWhile tag_char (replace_spaces cs) = replace_spaces ?rest"
          unfolding cs by (rule dropWhile_run_ok [OF list_all_takeWhile ok])
        have "match_hashTag (hash # replace_spaces cs) = match_hashTag (hash # cs)"
          by (simp only: match_hashTag.simps t d rest tail)
        with c Cons show ?thesis unfolding l by simp
      qed
    qed
  qed
qed

lemma extractTags_replace_spaces: "extractTags (replace_spaces s) = extractTags s"
  by (simp add: extractTags_def match_hashTag_replace_spaces)

lemma concat_white_space_runs: "concat (spec_white_space_runs s) = s"
  by (induction s rule: spec_white_space_runs.induct) simp_all

lemma spec_white_space_runs_uniform:
  "r \<in> set (spec_white_space_runs s) \<Longrightarrow> r \<noteq> [] \<and> (\<forall>d \<in> set r. white_space d = white_space (hd r))"
proof (induction s rule: spec_white_space_runs.induct)
  case 1
  then show ?case by simp
next
  case (2 c cs)
  show ?case
  proof (cases "r = c # takeWhile (\<lambda>d. white_space d = white_space c) cs")
    case True
    then show ?thesis by (auto dest: set_takeWhileD)
  next
    case False
    with "2.prems" have "r \<in> set (spec_white_space_runs (dropWhile (\<lambda>d. white_space d = white_space c) cs))"
      by simp
    then show ?thesis by (rule "2.IH")
  qed
qed

lemma hd_white_space_runs:
  "s \<noteq> [] \<Longrightarrow> hd (hd (spec_white_space_runs s)) = hd s \<and> spec_white_space_runs s \<noteq> []"
  by (cases s) simp_all

lemma spec_white_space_runs_alternate:
  "distinct_adj (map (\<lambda>r. white_space (hd r)) (spec_white_space_runs s))"
proof (induction s rule: spec_white_space_runs.induct)
  case 1
  then show ?case by simp
next
  case (2 c cs)
  let ?rest = "dropWhile (\<lambda>d. white_space d = white_space c) cs"
  show ?case
  proof (cases ?rest)
    case Nil
    then show ?thesis by (simp del: dropWhile_eq_Nil_conv)
  next
    case (Cons d ds)
    then have "white_space d \<noteq> white_space c"
      using hd_dropWhile [of "\<lambda>d. white_space d = white_space c" cs] by auto
    moreover from 2 Cons
    have "distinct_adj (map (\<lambda>r. white_space (hd r)) (spec_white_space_runs (d # ds)))"
      by simp
    ultimately show ?thesis
      by (simp add: distinct_adj_Cons Cons del: dropWhile_eq_Nil_conv)
  qed
qed

lemma replace_spaces_collapse_runs: "replace_spaces s = spec_collapse_runs s"
proof (induction s rule: length_induct)
  case (1 s)
  show ?case
  proof (cases s)
    case Nil
    then show ?thesis by (simp add: spec_collapse_runs_def)
  next
    case (Cons c cs)
    show ?thesis
    proof (cases "white_space c")
      case True
      then have same: "(\<lambda>d. white_space d = white_space c) = white_space" by auto
      have rest: "replace_spaces (dropWhile white_space cs) = spec_collapse_runs (dropWhile white_space cs)"
        using 1 Cons by (simp add: less_Suc_eq_le length_dropWhile_le)
      show ?thesis
      proof (cases "takeWhile white_space cs = []")
        case False
        then have "2 \<le> length (c # takeWhile white_space cs)"
          by (cases "takeWhile white_space cs") simp_all
        with True False Cons rest show ?thesis
          by (simp add: spec_collapse_runs_def same)
      next
        case none: True
        then have "dropWhile white_space cs = cs"
          by (metis append_Nil takeWhile_dropWhile_id)
        with True none Cons rest show ?thesis
          by (simp add: spec_collapse_runs_def same)
      qed
    next
      case False
      then have same: "(\<lambda>d. white_space d = white_space c) = (\<lambda>d. \<not> white_space d)" by auto
      let ?run = "takeWhile (\<lambda>d. \<not> white_space d) cs" and ?rest = "dropWhile (\<lambda>d. \<not> white_space d) cs"
      have rest: "replace_spaces ?rest = spec_collapse_runs ?rest"
        using 1 Cons by (simp add: less_Suc_eq_le length_dropWhile_le)
      have "replace_spaces (?run @ ?rest) = ?run @ replace_spaces ?rest"
        by (rule replace_spaces_plain [OF list_all_takeWhile])
      then have "replace_spaces cs = ?run @ spec_collapse_runs ?rest"
        by (simp add: rest)
      with False Cons show ?thesis
        by (simp add: spec_collapse_runs_def same)
    qed
  qed
qed

lemma replace_spaces_Nil: "replace_spaces s = [] \<longleftrightarrow> s = []"
  by (cases s) simp_all

lemma hd_replace_spaces:
  "s \<noteq> [] \<Longrightarrow> white_space (hd (replace_spaces s)) \<Longrightarrow> white_space (hd s)"
proof (cases s)
  case Nil
  assume "s \<noteq> []"
  with Nil show ?thesis by simp
next
  case (Cons c cs)
  assume "white_space (hd (replace_spaces s))"
  with Cons show ?thesis
    by (cases "white_space c \<and> takeWhile white_space cs \<noteq> []") simp_all
qed

lemma successively_single_spaces:
  "successively (\<lambda>a b. \<not> (white_space a \<and> white_space b)) (replace_spaces s)"
proof (induction s rule: replace_spaces.induct)
  case 1
  then show ?case by simp
next
  case (2 c cs)
  show ?case
  proof (cases "white_space c \<and> takeWhile white_space cs \<noteq> []")
    case True
    let ?rest = "dropWhile white_space cs"
    from True 2 have ih: "successively (\<lambda>a b. \<not> (white_space a \<and> white_space b))
        (replace_spaces ?rest)"
      by simp
    have "replace_spaces ?rest = [] \<or> \<not> white_space (hd (replace_spaces ?rest))"
    proof (cases "?rest = []")
      case True
      then show ?thesis by (simp only: replace_spaces_Nil) simp
    next
      case False
      then have "\<not> white_space (hd ?rest)" by (rule hd_dropWhile)
      with False hd_replace_spaces [of ?rest] show ?thesis by blast
    qed
    with ih have "successively (\<lambda>a b. \<not> (white_space a \<and> white_space b))
        (space # replace_spaces ?rest)"
      by (simp only: successively_Cons) blast
    with True show ?thesis by simp
  next
    case False
    with 2 have ih: "successively (\<lambda>a b. \<not> (white_space a \<and> white_space b))
        (replace_spaces cs)"
      by simp
    have "replace_spaces cs = [] \<or> \<not> (white_space c \<and> white_space (hd (replace_spaces cs)))"
    proof (cases "cs = []")
      case True
      then show ?thesis by simp
    next
      case nonempty: False
      show ?thesis
      proof (cases "white_space c")
        case True
        with False have "takeWhile white_space cs = []" by simp
        with nonempty have "\<not> white_space (hd cs)" by (cases cs) auto
        with nonempty hd_replace_spaces [of cs] show ?thesis by blast
      next
        case False
        then show ?thesis by simp
      qed
    qed
    with ih have "successively (\<lambda>a b. \<not> (white_space a \<and> white_space b))
        (c # replace_spaces cs)"
      by (simp only: successively_Cons) blast
    moreover from False have "replace_spaces (c # cs) = c # replace_spaces cs"
      by auto
    ultimately show ?thesis by simp
  qed
qed

lemma deleteTag_map_length: "length (deleteTag_map rt replace t j ns) = length ns"
  by (induction ns arbitrary: j) (simp_all add: Let_def)

lemma deleteTag_map_nth:
  "k < length ns \<Longrightarrow>
   deleteTag_map rt replace t j ns ! k =
     (if t \<in> set (tags (ns ! k))
      then (ns ! k)\<lparr>content := replace_spaces (replace (content (ns ! k)) []),
             tags := extractTags (replace_spaces (replace (content (ns ! k)) [])),
             updatedAt := Date_now rt (j + length (filter (\<lambda>n. t \<in> set (tags n)) (take k ns)))\<rparr>
      else ns ! k)"
proof (induction ns arbitrary: j k)
  case Nil
  then show ?case by simp
next
  case (Cons n ns)
  show ?case
  proof (cases k)
    case 0
    then show ?thesis by (simp add: Let_def)
  next
    case (Suc k')
    with Cons.prems have "k' < length ns" by simp
    from Cons.IH [OF this] Suc show ?thesis by (simp add: Let_def)
  qed
qed

lemma tag_of_content:
  assumes "t \<in> set (extractTags s)"
  shows "t \<noteq> []" and "list_all tag_char t"
  using assms extractTags_iff [of t s] by blast+

lemma deleteTag_unused:
  assumes "getNotesFromStorage w = Array ns" and "\<forall>n \<in> set ns. t \<notin> set (tags n)"
  shows "snd (deleteTag rt t w) = w"
  using assms
  by (cases "RegExp_tag rt t") (simp_all add: deleteTag_def Let_def list_ex_iff)

lemma deleteTag_used:
  assumes "getNotesFromStorage w = Array ns" and "tags_ok w"
    and "n \<in> set ns" and "t \<in> set (tags n)" and "setItem_ok rt STORAGE_KEY_NOTES"
  shows "deleteTag rt t w =
    (Inr (), saveNotesToStorage rt (deleteTag_map rt (replace_tag t) t 0 ns) w)"
    and "t \<noteq> []" and "list_all tag_char t"
proof -
  from assms(1,2,3) have "tags n = extractTags (content n)"
    by (simp add: tags_ok_def notes_of_Array list_all_iff)
  with assms(4) show t: "t \<noteq> []" "list_all tag_char t"
    using tag_of_content by simp_all
  from assms(3,4) have "list_ex (\<lambda>note. t \<in> set (tags note)) ns"
    by (auto simp: list_ex_iff)
  with t assms(1) show "deleteTag rt t w =
    (Inr (), saveNotesToStorage rt (deleteTag_map rt (replace_tag t) t 0 ns) w)"
    by (simp add: deleteTag_def RegExp_tag_def Let_def)
qed

section \<open>Deleting a tag\<close>

lemma two_elements: "length xs = 2 \<Longrightarrow> xs = [xs ! 0, xs ! 1]"
  by (cases xs; cases "tl xs") auto

lemma deleteTag_content:
  assumes "getNotesFromStorage w = Array ns" and "RegExp_tag rt t = Inr replace"
    and "setItem_ok rt STORAGE_KEY_NOTES" and "k < length ns" and "t \<in> set (tags (ns ! k))"
  shows "content (notes_of (snd (deleteTag rt t w)) ! k) =
    replace_spaces (replace (content (ns ! k)) [])"
proof -
  from assms(4,5) have "list_ex (\<lambda>note. t \<in> set (tags note)) ns"
    by (auto simp: list_ex_iff)
  with assms(1,2,3) have "notes_of (snd (deleteTag rt t w)) = deleteTag_map rt replace t 0 ns"
    by (simp add: deleteTag_def Let_def notes_of_saveNotes)
  with assms(4,5) show ?thesis
    by (simp add: deleteTag_map_nth)
qed

text \<open>
  C6. \<^verbatim>\<open>deleteTag(t)\<close> on a store that holds the notes \<open>ns\<close>, each with the tags of its
  content, and accepts the write. If no note has the tag, the store is left as it is:
  nothing is written. Otherwise the operation returns; a note without the tag stays as
  it is; and a note with the tag gets as content \<open>c'\<close> its old content with every token
  \<^verbatim>\<open>#t\<close> removed (the tokens of the boundary rule) and then every run of two or more white
  space characters replaced by one space, gets the tags of \<open>c'\<close>, which are its old tags
  without \<open>t\<close>, and gets the clock's reading as \<^verbatim>\<open>updatedAt\<close> (one reading for every note
  with the tag, in stored order). No two white space characters are adjacent in \<open>c'\<close>.
\<close>

theorem deleteTag_removes_tokens_and_collapses:
  assumes "getNotesFromStorage w = Array ns" and "tags_ok w"
    and "setItem_ok rt STORAGE_KEY_NOTES"
  shows "((\<forall>n \<in> set ns. t \<notin> set (tags n)) \<longrightarrow> snd (deleteTag rt t w) = w) \<and>
    ((\<exists>n \<in> set ns. t \<in> set (tags n)) \<longrightarrow>
       fst (deleteTag rt t w) = Inr () \<and>
       length (notes_of (snd (deleteTag rt t w))) = length ns \<and>
       (\<forall>k < length ns.
          (t \<notin> set (tags (ns ! k)) \<longrightarrow> notes_of (snd (deleteTag rt t w)) ! k = ns ! k) \<and>
          (t \<in> set (tags (ns ! k)) \<longrightarrow>
             (let c' = spec_collapse_runs (spec_replace_tokens t [] (content (ns ! k)))
              in notes_of (snd (deleteTag rt t w)) ! k =
                   (ns ! k)\<lparr>content := c', tags := extractTags c',
                     updatedAt := Date_now rt
                       (length (filter (\<lambda>n. t \<in> set (tags n)) (take k ns)))\<rparr> \<and>
                 c' = replace_spaces (replace_tag t (content (ns ! k)) []) \<and>
                 t \<notin> set (extractTags c') \<and>
                 set (extractTags c') = set (tags (ns ! k)) - {t} \<and>
                 successively (\<lambda>a b. \<not> (white_space a \<and> white_space b)) c'))))"
proof (intro conjI impI)
  assume "\<forall>n \<in> set ns. t \<notin> set (tags n)"
  with assms(1) show "snd (deleteTag rt t w) = w" by (rule deleteTag_unused)
next
  assume "\<exists>n \<in> set ns. t \<in> set (tags n)"
  then obtain n where n: "n \<in> set ns" "t \<in> set (tags n)" by blast
  note used = deleteTag_used [OF assms(1,2) n assms(3)]
  have stored: "notes_of (snd (deleteTag rt t w)) = deleteTag_map rt (replace_tag t) t 0 ns"
    using assms(3) by (simp add: used(1) notes_of_saveNotes)
  have removed: "replace_tag t s [] = spec_replace_tokens t [] s" for s
    by (rule replace_tag_spec [OF used(3)]) simp
  show "fst (deleteTag rt t w) = Inr ()" by (simp add: used(1))
  show "length (notes_of (snd (deleteTag rt t w))) = length ns"
    by (simp add: stored deleteTag_map_length)
  show "\<forall>k < length ns.
      (t \<notin> set (tags (ns ! k)) \<longrightarrow> notes_of (snd (deleteTag rt t w)) ! k = ns ! k) \<and>
      (t \<in> set (tags (ns ! k)) \<longrightarrow>
         (let c' = spec_collapse_runs (spec_replace_tokens t [] (content (ns ! k)))
          in notes_of (snd (deleteTag rt t w)) ! k =
               (ns ! k)\<lparr>content := c', tags := extractTags c',
                 updatedAt := Date_now rt
                   (length (filter (\<lambda>n. t \<in> set (tags n)) (take k ns)))\<rparr> \<and>
             c' = replace_spaces (replace_tag t (content (ns ! k)) []) \<and>
             t \<notin> set (extractTags c') \<and>
             set (extractTags c') = set (tags (ns ! k)) - {t} \<and>
             successively (\<lambda>a b. \<not> (white_space a \<and> white_space b)) c'))"
  proof (intro allI impI conjI)
    fix k
    assume k: "k < length ns" and "t \<notin> set (tags (ns ! k))"
    then show "notes_of (snd (deleteTag rt t w)) ! k = ns ! k"
      by (simp add: stored deleteTag_map_nth)
  next
    fix k
    assume k: "k < length ns" and "t \<in> set (tags (ns ! k))"
    let ?s = "content (ns ! k)"
    from k assms(1,2) have tags: "tags (ns ! k) = extractTags ?s"
      by (simp add: tags_ok_def notes_of_Array list_all_length)
    have c: "spec_collapse_runs (spec_replace_tokens t [] ?s) =
        replace_spaces (replace_tag t ?s [])"
      by (simp add: removed replace_spaces_collapse_runs)
    have e: "set (extractTags (replace_spaces (replace_tag t ?s []))) = set (extractTags ?s) - {t}"
      by (simp add: extractTags_replace_spaces removed extractTags_removed [OF used(2)])
    from k \<open>t \<in> set (tags (ns ! k))\<close>
    have "notes_of (snd (deleteTag rt t w)) ! k =
        (ns ! k)\<lparr>content := replace_spaces (replace_tag t ?s []),
          tags := extractTags (replace_spaces (replace_tag t ?s [])),
          updatedAt := Date_now rt (length (filter (\<lambda>n. t \<in> set (tags n)) (take k ns)))\<rparr>"
      by (simp add: stored deleteTag_map_nth)
    then have stored_k: "notes_of (snd (deleteTag rt t w)) ! k =
        (ns ! k)\<lparr>content := replace_spaces (replace_tag t ?s []),
          updatedAt := Date_now rt (length (filter (\<lambda>n. t \<in> set (tags n)) (take k ns))),
          tags := extractTags (replace_spaces (replace_tag t ?s []))\<rparr>"
      by (simp add: Note_update_swap)
    have single: "successively (\<lambda>a b. \<not> (white_space a \<and> white_space b))
        (replace_spaces (replace_tag t ?s []))"
      by (rule successively_single_spaces)
    show "let c' = spec_collapse_runs (spec_replace_tokens t [] ?s)
        in notes_of (snd (deleteTag rt t w)) ! k =
             (ns ! k)\<lparr>content := c', tags := extractTags c',
               updatedAt := Date_now rt (length (filter (\<lambda>n. t \<in> set (tags n)) (take k ns)))\<rparr> \<and>
           c' = replace_spaces (replace_tag t ?s []) \<and>
           t \<notin> set (extractTags c') \<and>
           set (extractTags c') = set (tags (ns ! k)) - {t} \<and>
           successively (\<lambda>a b. \<not> (white_space a \<and> white_space b)) c'"
      unfolding Let_def c e tags Note_update_swap
      using stored_k single by (intro conjI) simp_all
  qed
qed

text \<open>
  In the store of \<open>check_idea\<close>, deleting \<^verbatim>\<open>idea\<close> at 3000 turns \<^verbatim>\<open>Check #idea   now\<close> into
  \<^verbatim>\<open>Check now\<close> without tags and leaves the other note alone; deleting the unused tag
  \<^verbatim>\<open>plan\<close> leaves the store as it is.
\<close>

theorem deleteTag_removes_tokens_witness:
  "map (\<lambda>n. (content n, tags n, updatedAt n)) (notes_of (run check_idea empty_store)) =
     [(ascii ''Check #idea   now'', [ascii ''idea''], 2000),
      (ascii ''keep #x'', [ascii ''x''], 1000)] \<and>
   map (\<lambda>n. (content n, tags n, updatedAt n))
     (notes_of (snd (deleteTag (runtime_at [] 3000) (ascii ''idea'')
        (run check_idea empty_store)))) =
     [(ascii ''Check now'', [], 3000), (ascii ''keep #x'', [ascii ''x''], 1000)] \<and>
   snd (deleteTag (runtime_at [] 3000) (ascii ''plan'') (run check_idea empty_store)) =
     run check_idea empty_store"
proof -
  define rt where "rt = runtime_at [] 3000"
  define w where "w = run check_idea empty_store"
  define ns where "ns = notes_of w"
  define w' where "w' = snd (deleteTag rt (ascii ''idea'') w)"
  have ns: "ns = [\<lparr>id_note = ascii ''n2'', content = ascii ''Check #idea   now'',
      createdAt = 2000, updatedAt = 2000, isPinned = False, isTrashed = False,
      tags = [ascii ''idea''], folderId = None\<rparr>,
     \<lparr>id_note = ascii ''n1'', content = ascii ''keep #x'',
      createdAt = 1000, updatedAt = 1000, isPinned = False, isTrashed = False,
      tags = [ascii ''x''], folderId = None\<rparr>]"
    by (simp add: ns_def w_def check_idea_def operation_defs storage_defs string_defs Let_def)
  have "bearclone_notes_v2 w = JSON_array ns"
    by (simp add: ns_def w_def check_idea_def operation_defs storage_defs string_defs Let_def)
  then have array: "getNotesFromStorage w = Array ns"
    by (simp add: getNotesFromStorage_def)
  have tags_ok: "tags_ok w"
    unfolding w_def by (rule run_tags_ok [OF tags_ok_empty_store])
  have ok: "setItem_ok rt STORAGE_KEY_NOTES"
    by (simp add: rt_def runtime_at_def)
  have now: "Date_now rt 0 = 3000"
    by (simp add: rt_def runtime_at_def)
  have unused: "\<forall>n \<in> set ns. ascii ''plan'' \<notin> set (tags n)"
    by (simp add: ns evaluate_example)
  have used: "\<exists>n \<in> set ns. ascii ''idea'' \<in> set (tags n)"
    by (simp add: ns)
  have k: "0 < length ns" "1 < length ns" "ascii ''idea'' \<in> set (tags (ns ! 0))"
    "ascii ''idea'' \<notin> set (tags (ns ! 1))"
    by (simp_all add: ns evaluate_example)
  note plan = deleteTag_removes_tokens_and_collapses [OF array tags_ok ok, of "ascii ''plan''"]
  note idea = deleteTag_removes_tokens_and_collapses [OF array tags_ok ok, of "ascii ''idea''"]
  note idea = idea [THEN conjunct2, THEN mp, OF used, folded w'_def]
  note len = idea [THEN conjunct2, THEN conjunct1]
  note each = idea [THEN conjunct2, THEN conjunct2, THEN spec, THEN mp]
  note first = each [OF k(1), THEN conjunct2, THEN mp, OF k(3), unfolded Let_def, THEN conjunct1]
  note second = each [OF k(2), THEN conjunct1, THEN mp, OF k(4)]
  have "length (notes_of w') = 2" using len by (simp add: ns)
  then have "notes_of w' = [notes_of w' ! 0, notes_of w' ! 1]" by (rule two_elements)
  then have "map (\<lambda>n. (content n, tags n, updatedAt n)) (notes_of w') =
      [(ascii ''Check now'', [], 3000), (ascii ''keep #x'', [ascii ''x''], 1000)]"
    unfolding first second
    by (simp add: ns now string_defs spec_collapse_runs_def)
  moreover have "snd (deleteTag rt (ascii ''plan'') w) = w"
    using plan unused by blast
  moreover have "map (\<lambda>n. (content n, tags n, updatedAt n)) ns =
     [(ascii ''Check #idea   now'', [ascii ''idea''], 2000),
      (ascii ''keep #x'', [ascii ''x''], 1000)]"
    by (simp add: ns)
  ultimately show ?thesis
    unfolding w'_def w_def rt_def ns_def by (intro conjI)
qed

text \<open>
  C10. \<^verbatim>\<open>replace(/\s{2,}/g, ' ')\<close> works on the whole content: the result is the content with
  every maximal run of two or more white space characters replaced by one space. The
  runs are consecutive pieces of the content, each all white space or all not, and
  neighbouring runs differ in that, so each is maximal; afterwards no two white space
  characters are adjacent. \<^verbatim>\<open>deleteTag\<close> applies this to what the tag expression leaves of
  the content of every note with the tag, so runs that were there before the tag was
  removed, runs of line feeds included, are collapsed as well.
\<close>

theorem deleteTag_collapses_every_run_of_white_space:
  "replace_spaces s = spec_collapse_runs s \<and>
   concat (spec_white_space_runs s) = s \<and>
   (\<forall>r \<in> set (spec_white_space_runs s).
      r \<noteq> [] \<and> (\<forall>d \<in> set r. white_space d = white_space (hd r))) \<and>
   distinct_adj (map (\<lambda>r. white_space (hd r)) (spec_white_space_runs s)) \<and>
   successively (\<lambda>a b. \<not> (white_space a \<and> white_space b)) (replace_spaces s) \<and>
   (getNotesFromStorage w = Array ns \<longrightarrow> RegExp_tag rt t = Inr replace \<longrightarrow>
    setItem_ok rt STORAGE_KEY_NOTES \<longrightarrow> k < length ns \<longrightarrow> t \<in> set (tags (ns ! k)) \<longrightarrow>
      content (notes_of (snd (deleteTag rt t w)) ! k) =
        spec_collapse_runs (replace (content (ns ! k)) []))"
proof (intro conjI impI ballI)
  show "replace_spaces s = spec_collapse_runs s"
    by (rule replace_spaces_collapse_runs)
  show "concat (spec_white_space_runs s) = s"
    by (rule concat_white_space_runs)
  show "distinct_adj (map (\<lambda>r. white_space (hd r)) (spec_white_space_runs s))"
    by (rule spec_white_space_runs_alternate)
  show "successively (\<lambda>a b. \<not> (white_space a \<and> white_space b)) (replace_spaces s)"
    by (rule successively_single_spaces)
next
  fix r
  assume "r \<in> set (spec_white_space_runs s)"
  from spec_white_space_runs_uniform [OF this]
  show "r \<noteq> []" and "\<And>d. d \<in> set r \<Longrightarrow> white_space d = white_space (hd r)"
    by blast+
next
  assume "getNotesFromStorage w = Array ns" "RegExp_tag rt t = Inr replace"
    "setItem_ok rt STORAGE_KEY_NOTES" "k < length ns" "t \<in> set (tags (ns ! k))"
  then show "content (notes_of (snd (deleteTag rt t w)) ! k) =
      spec_collapse_runs (replace (content (ns ! k)) [])"
    by (simp only: deleteTag_content replace_spaces_collapse_runs)
qed

text \<open>
  Deleting \<^verbatim>\<open>idea\<close> from a note of two paragraphs: the blank line between the paragraphs
  becomes one space, like the three spaces the removed tag leaves.
\<close>

theorem deleteTag_collapses_witness:
  "map content (notes_of (run paragraphs empty_store)) =
     [ascii ''one\<newline>\<newline>two #idea  three''] \<and>
   spec_white_space_runs (ascii ''one\<newline>\<newline>two   three'') =
     [ascii ''one'', ascii ''\<newline>\<newline>'', ascii ''two'', ascii ''   '', ascii ''three''] \<and>
   map content (notes_of (snd (deleteTag (runtime_at [] 2000) (ascii ''idea'')
     (run paragraphs empty_store)))) = [ascii ''one two three'']"
proof -
  define rt where "rt = runtime_at [] 2000"
  define w where "w = run paragraphs empty_store"
  define ns where "ns = notes_of w"
  define w' where "w' = snd (deleteTag rt (ascii ''idea'') w)"
  have ns: "ns = [\<lparr>id_note = ascii ''n1'', content = ascii ''one\<newline>\<newline>two #idea  three'',
      createdAt = 1000, updatedAt = 1000, isPinned = False, isTrashed = False,
      tags = [ascii ''idea''], folderId = None\<rparr>]"
    by (simp add: ns_def w_def paragraphs_def operation_defs storage_defs string_defs Let_def)
  have "bearclone_notes_v2 w = JSON_array ns"
    by (simp add: ns_def w_def paragraphs_def operation_defs storage_defs string_defs Let_def)
  then have array: "getNotesFromStorage w = Array ns"
    by (simp add: getNotesFromStorage_def)
  have regexp: "RegExp_tag rt (ascii ''idea'') = Inr (replace_tag (ascii ''idea''))"
    by (simp add: string_defs)
  have ok: "setItem_ok rt STORAGE_KEY_NOTES"
    by (simp add: rt_def runtime_at_def)
  have k: "0 < length ns" "ascii ''idea'' \<in> set (tags (ns ! 0))"
    by (simp_all add: ns)
  note runs = deleteTag_collapses_every_run_of_white_space
    [where w = w and ns = ns and rt = rt and t = "ascii ''idea''"
      and replace = "replace_tag (ascii ''idea'')" and k = 0]
  note stored = runs [THEN conjunct2, THEN conjunct2, THEN conjunct2, THEN conjunct2,
      THEN conjunct2, THEN mp, THEN mp, THEN mp, THEN mp, THEN mp,
      OF array regexp ok k, folded w'_def]
  have removed: "replace_tag (ascii ''idea'') (content (ns ! 0)) [] =
      ascii ''one\<newline>\<newline>two   three''"
    by (simp add: ns string_defs)
  have runs_of: "spec_white_space_runs (ascii ''one\<newline>\<newline>two   three'') =
     [ascii ''one'', ascii ''\<newline>\<newline>'', ascii ''two'', ascii ''   '', ascii ''three'']"
    by (simp add: string_defs)
  have "content (notes_of w' ! 0) = ascii ''one two three''"
    unfolding stored removed spec_collapse_runs_def runs_of
    by (simp add: string_defs)
  moreover have "length (notes_of w') = 1"
    using array regexp ok
    by (simp add: w'_def deleteTag_def Let_def notes_of_saveNotes deleteTag_map_length ns)
  ultimately have "map content (notes_of w') = [ascii ''one two three'']"
    by (cases "notes_of w'") simp_all
  moreover have "map content ns = [ascii ''one\<newline>\<newline>two #idea  three'']"
    by (simp add: ns)
  ultimately show ?thesis
    using runs_of unfolding w'_def w_def rt_def ns_def by (intro conjI)
qed

section \<open>Renaming a tag\<close>

lemma renameTag_map_length: "length (renameTag_map rt replace old new j ns) = length ns"
  by (induction ns arbitrary: j) (simp_all add: Let_def)

lemma renameTag_map_nth:
  "k < length ns \<Longrightarrow>
   renameTag_map rt replace old new j ns ! k =
     (if old \<in> set (tags (ns ! k))
      then (ns ! k)\<lparr>content := replace (content (ns ! k)) (hash # new),
             tags := extractTags (replace (content (ns ! k)) (hash # new)),
             updatedAt := Date_now rt (j + length (filter (\<lambda>n. old \<in> set (tags n)) (take k ns)))\<rparr>
      else ns ! k)"
proof (induction ns arbitrary: j k)
  case Nil
  then show ?case by simp
next
  case (Cons n ns)
  show ?case
  proof (cases k)
    case 0
    then show ?thesis by (simp add: Let_def)
  next
    case (Suc k')
    with Cons.prems have "k' < length ns" by simp
    from Cons.IH [OF this] Suc show ?thesis by (simp add: Let_def)
  qed
qed

lemma renameTag_unused:
  assumes "getNotesFromStorage w = Array ns" and "\<forall>n \<in> set ns. old \<notin> set (tags n)"
  shows "snd (renameTag rt old new w) = w"
  using assms
  by (cases "RegExp_tag rt old") (simp_all add: renameTag_def Let_def list_ex_iff)

text \<open>
  \<^verbatim>\<open>renameTag(old, new)\<close> for a new tag without a dollar sign, on a store that holds the
  notes \<open>ns\<close>, each with the tags of its content, and accepts the write: a note without
  the old tag stays as it is, and a note with it gets every token \<^verbatim>\<open>#old\<close> of its content
  replaced by \<^verbatim>\<open>#new\<close>, the tags of the new content, and the clock's reading as
  \<^verbatim>\<open>updatedAt\<close>. When no note has the old tag, nothing is written.
\<close>

lemma renameTag_without_dollar:
  assumes "getNotesFromStorage w = Array ns" and "tags_ok w"
    and "setItem_ok rt STORAGE_KEY_NOTES" and "dollar \<notin> set new"
    and "k < length ns"
  shows "length (notes_of (snd (renameTag rt old new w))) = length ns"
    and "old \<notin> set (tags (ns ! k)) \<Longrightarrow> notes_of (snd (renameTag rt old new w)) ! k = ns ! k"
    and "old \<in> set (tags (ns ! k)) \<Longrightarrow>
      fst (renameTag rt old new w) = Inr () \<and>
      notes_of (snd (renameTag rt old new w)) ! k =
        (ns ! k)\<lparr>content := spec_replace_tokens old (hash # new) (content (ns ! k)),
          tags := extractTags (spec_replace_tokens old (hash # new) (content (ns ! k))),
          updatedAt := Date_now rt (length (filter (\<lambda>n. old \<in> set (tags n)) (take k ns)))\<rparr>"
proof -
  have plain: "dollar \<notin> set (hash # new)"
    using assms(4) by (simp add: dollar_def hash_def)
  show "length (notes_of (snd (renameTag rt old new w))) = length ns"
    using assms(1)
    by (cases "RegExp_tag rt old")
      (simp_all add: renameTag_def Let_def notes_of_saveNotes renameTag_map_length
        notes_of_Array)
  show "notes_of (snd (renameTag rt old new w)) ! k = ns ! k" if "old \<notin> set (tags (ns ! k))"
    using assms(1,5) that
    by (cases "RegExp_tag rt old")
      (simp_all add: renameTag_def Let_def notes_of_saveNotes renameTag_map_nth notes_of_Array)
  show "fst (renameTag rt old new w) = Inr () \<and>
      notes_of (snd (renameTag rt old new w)) ! k =
        (ns ! k)\<lparr>content := spec_replace_tokens old (hash # new) (content (ns ! k)),
          tags := extractTags (spec_replace_tokens old (hash # new) (content (ns ! k))),
          updatedAt := Date_now rt (length (filter (\<lambda>n. old \<in> set (tags n)) (take k ns)))\<rparr>"
    if used: "old \<in> set (tags (ns ! k))"
  proof -
    from assms(1,2,5) have "tags (ns ! k) = extractTags (content (ns ! k))"
      by (simp add: tags_ok_def notes_of_Array list_all_length)
    with used have old: "list_all tag_char old"
      using tag_of_content by simp
    from assms(5) used have "list_ex (\<lambda>note. old \<in> set (tags note)) ns"
      by (auto simp: list_ex_iff)
    with old assms(1,3) have "renameTag rt old new w =
        (Inr (), saveNotesToStorage rt (renameTag_map rt (replace_tag old) old new 0 ns) w)"
      by (simp add: renameTag_def RegExp_tag_def Let_def)
    with assms(3,5) used show ?thesis
      by (simp add: notes_of_saveNotes renameTag_map_nth replace_tag_spec [OF old plain])
  qed
qed

text \<open>
  C5 says that every token \<^verbatim>\<open>#oldTag\<close> is replaced by \<^verbatim>\<open>#newTag\<close>. The code passes
  \<^verbatim>\<open>`#${newTag}`\<close> to \<^verbatim>\<open>replace\<close> as the replacement text, where a dollar sign is special.
  Renaming \<^verbatim>\<open>idea\<close> to \<^verbatim>\<open>x$&\<close> in \<^verbatim>\<open>Review #idea please\<close> gives \<^verbatim>\<open>Review #x#idea please\<close>, which
  still has the tag \<^verbatim>\<open>idea\<close>, and not \<^verbatim>\<open>Review #x$& please\<close>; renaming it to \<^verbatim>\<open>cash$$\<close> gives
  \<^verbatim>\<open>Review #cash$ please\<close>, and not \<^verbatim>\<open>Review #cash$$ please\<close>.
\<close>

theorem renameTag_dollar_in_newTag:
  "map (\<lambda>n. (content n, tags n)) (notes_of (run review_note empty_store)) =
     [(ascii ''Review #idea please'', [ascii ''idea''])] \<and>
   map (\<lambda>n. (content n, tags n)) (notes_of (snd (renameTag (runtime_at [] 2000)
     (ascii ''idea'') (ascii ''x$&'') (run review_note empty_store)))) =
     [(ascii ''Review #x#idea please'', [ascii ''x'', ascii ''idea''])] \<and>
   map (\<lambda>n. (content n, tags n)) (notes_of (snd (renameTag (runtime_at [] 2000)
     (ascii ''idea'') (ascii ''cash$$'') (run review_note empty_store)))) =
     [(ascii ''Review #cash$ please'', [ascii ''cash''])]"
  by (simp add: review_note_def operation_defs storage_defs string_defs Let_def)

end
